theory Spec2Isabelle
  imports Main
begin

unbundle bit_operations_syntax

section \<open>Strings, bytes and errors\<close>

text \<open>
  A Python \<open>str\<close> is a sequence of Unicode code points and \<open>len\<close>, slicing, \<open>split\<close>
  and \<open>strip\<close> count code points; a \<open>bytes\<close> object is a sequence of octets. The two
  are kept apart: a code point is a \<open>nat\<close>, an octet is a \<open>char\<close> (HOL's \<open>char\<close> has
  exactly 256 values). \<open>py\<close> reads an ASCII literal of the source as a \<open>str\<close>.
\<close>

type_synonym codepoint = nat
type_synonym str = "codepoint list"
type_synonym bytes = "char list"

definition py :: "string \<Rightarrow> str" where
  "py s = map of_char s"

text \<open>The exceptions the modelled code can raise.\<close>

datatype error =
    UnicodeEncodeError
  | UnicodeDecodeError
  | JSONDecodeError
  | HTTPError

text \<open>
  \<open>text.encode("UTF-8")\<close>: one to four octets per code point; a surrogate
  (U+D800..U+DFFF) raises \<open>UnicodeEncodeError\<close>. Values from 0x110000 on are no code
  points of a Python \<open>str\<close>; the model rejects them as well.
\<close>

definition encode_cp :: "codepoint \<Rightarrow> error + bytes" where
  "encode_cp c =
     (if c < 0x80 then Inr [char_of c]
      else if c < 0x800 then Inr [char_of (0xC0 + c div 0x40), char_of (0x80 + c mod 0x40)]
      else if 0xD800 \<le> c \<and> c \<le> 0xDFFF then Inl UnicodeEncodeError
      else if c < 0x10000 then
        Inr [char_of (0xE0 + c div 0x1000), char_of (0x80 + c div 0x40 mod 0x40),
             char_of (0x80 + c mod 0x40)]
      else if c < 0x110000 then
        Inr [char_of (0xF0 + c div 0x40000), char_of (0x80 + c div 0x1000 mod 0x40),
             char_of (0x80 + c div 0x40 mod 0x40), char_of (0x80 + c mod 0x40)]
      else Inl UnicodeEncodeError)"

fun encode :: "str \<Rightarrow> error + bytes" where
  "encode [] = Inr []"
| "encode (c # cs) =
     (case encode_cp c of
        Inl e \<Rightarrow> Inl e
      | Inr b \<Rightarrow> (case encode cs of Inl e \<Rightarrow> Inl e | Inr bs \<Rightarrow> Inr (b @ bs)))"

text \<open>
  \<open>bytes.decode("UTF-8")\<close> in strict mode: continuation octets are 0x80..0xBF; overlong
  forms, encoded surrogates and values above U+10FFFF raise \<open>UnicodeDecodeError\<close>.
\<close>

definition cont :: "char \<Rightarrow> bool" where
  "cont b = (0x80 \<le> (of_char b :: nat) \<and> (of_char b :: nat) \<le> 0xBF)"

definition low6 :: "char \<Rightarrow> nat" where
  "low6 b = (of_char b :: nat) mod 0x40"

fun decode :: "bytes \<Rightarrow> error + str" where
  "decode [] = Inr []"
| "decode (b # bs) =
     (let n = (of_char b :: nat) in
      if n < 0x80 then
        (case decode bs of Inl e \<Rightarrow> Inl e | Inr cs \<Rightarrow> Inr (n # cs))
      else if 0xC2 \<le> n \<and> n \<le> 0xDF then
        (case bs of
           b1 # r \<Rightarrow>
             if cont b1 then
               (case decode r of
                  Inl e \<Rightarrow> Inl e
                | Inr cs \<Rightarrow> Inr (((n - 0xC0) * 0x40 + low6 b1) # cs))
             else Inl UnicodeDecodeError
         | _ \<Rightarrow> Inl UnicodeDecodeError)
      else if 0xE0 \<le> n \<and> n \<le> 0xEF then
        (case bs of
           b1 # b2 # r \<Rightarrow>
             if cont b1 \<and> cont b2
                \<and> (n = 0xE0 \<longrightarrow> 0xA0 \<le> (of_char b1 :: nat))
                \<and> (n = 0xED \<longrightarrow> (of_char b1 :: nat) < 0xA0) then
               (case decode r of
                  Inl e \<Rightarrow> Inl e
                | Inr cs \<Rightarrow> Inr (((n - 0xE0) * 0x1000 + low6 b1 * 0x40 + low6 b2) # cs))
             else Inl UnicodeDecodeError
         | _ \<Rightarrow> Inl UnicodeDecodeError)
      else if 0xF0 \<le> n \<and> n \<le> 0xF4 then
        (case bs of
           b1 # b2 # b3 # r \<Rightarrow>
             if cont b1 \<and> cont b2 \<and> cont b3
                \<and> (n = 0xF0 \<longrightarrow> 0x90 \<le> (of_char b1 :: nat))
                \<and> (n = 0xF4 \<longrightarrow> (of_char b1 :: nat) < 0x90) then
               (case decode r of
                  Inl e \<Rightarrow> Inl e
                | Inr cs \<Rightarrow>
                    Inr (((n - 0xF0) * 0x40000 + low6 b1 * 0x1000 + low6 b2 * 0x40 + low6 b3)
                         # cs))
             else Inl UnicodeDecodeError
         | _ \<Rightarrow> Inl UnicodeDecodeError)
      else Inl UnicodeDecodeError)"

section \<open>The regular expression of \<open>parse_urls\<close>\<close>

text \<open>
  The pattern is a \<open>bytes\<close> pattern, so \<open>\w\<close>, \<open>\W\<close> and \<open>\b\<close> are ASCII-only:
  a word octet is one of \<open>[a-zA-Z0-9_]\<close>, and every octet from 0x80 on is a non-word
  octet.
\<close>

definition between :: "char \<Rightarrow> char \<Rightarrow> char \<Rightarrow> bool" where
  "between lo hi c = ((of_char lo :: nat) \<le> of_char c \<and> (of_char c :: nat) \<le> of_char hi)"

definition alnum :: "char \<Rightarrow> bool" where
  "alnum c = (between CHR ''a'' CHR ''z'' c \<or> between CHR ''A'' CHR ''Z'' c
              \<or> between CHR ''0'' CHR ''9'' c)"

definition is_word :: "char \<Rightarrow> bool" where
  "is_word c = (alnum c \<or> c = CHR ''_'')"

text \<open>
  The five bracket expressions of the pattern, in the order they appear:
  \<^verbatim>\<open>[$|\W]\<close>,
  \<^verbatim>\<open>[-a-zA-Z0-9@:%._\+~#=]\<close>,
  \<^verbatim>\<open>[a-zA-Z0-9()]\<close>,
  \<^verbatim>\<open>[-a-zA-Z0-9()@:%_\+.~#?&//=]\<close> and
  \<^verbatim>\<open>[-a-zA-Z0-9@%_\+~#//=]\<close>.
  Inside brackets \<open>$\<close> and \<open>|\<close> are ordinary characters.
\<close>

definition cls_boundary :: "char \<Rightarrow> bool" where
  "cls_boundary c = (c = CHR ''$'' \<or> c = CHR ''|'' \<or> \<not> is_word c)"

definition cls_host :: "char \<Rightarrow> bool" where
  "cls_host c = (c = CHR ''-'' \<or> alnum c \<or> c \<in> set ''@:%._+~#='')"

definition cls_tld :: "char \<Rightarrow> bool" where
  "cls_tld c = (alnum c \<or> c \<in> set ''()'')"

definition cls_path :: "char \<Rightarrow> bool" where
  "cls_path c = (c = CHR ''-'' \<or> alnum c \<or> c \<in> set ''()@:%_+.~#?&//='')"

definition cls_path_end :: "char \<Rightarrow> bool" where
  "cls_path_end c = (c = CHR ''-'' \<or> alnum c \<or> c \<in> set ''@%_+~#//='')"

text \<open>
  The fragment of Python's \<open>re\<close> the pattern uses. Every repetition of the pattern
  repeats a single bracket expression, which is what the engine's one-item repeat does:
  it takes the longest run allowed and gives octets back one at a time.
\<close>

datatype regex =
    Lit bytes
  | Cls "char \<Rightarrow> bool"
  | Rep "char \<Rightarrow> bool" nat nat
  | Star "char \<Rightarrow> bool"
  | Opt regex
  | Seq regex regex
  | WordB

text \<open>
  \<open>ends r t i\<close> lists the positions at which a match of \<open>r\<close> that starts at position
  \<open>i\<close> of \<open>t\<close> can end, in the order in which the backtracking engine tries them
  (greedy alternatives first). The engine's match is the first one.
\<close>

definition run :: "(char \<Rightarrow> bool) \<Rightarrow> bytes \<Rightarrow> nat \<Rightarrow> nat" where
  "run c t i = length (takeWhile c (drop i t))"

definition word_at :: "bytes \<Rightarrow> nat \<Rightarrow> bool" where
  "word_at t i = (i < length t \<and> is_word (t ! i))"

definition word_boundary :: "bytes \<Rightarrow> nat \<Rightarrow> bool" where
  "word_boundary t i = ((0 < i \<and> word_at t (i - 1)) \<noteq> word_at t i)"

fun ends :: "regex \<Rightarrow> bytes \<Rightarrow> nat \<Rightarrow> nat list" where
  "ends (Lit l) t i = (if take (length l) (drop i t) = l then [i + length l] else [])"
| "ends (Cls c) t i = (if i < length t \<and> c (t ! i) then [i + 1] else [])"
| "ends (Rep c lo hi) t i = map (\<lambda>k. i + k) (rev [lo ..< Suc (min hi (run c t i))])"
| "ends (Star c) t i = map (\<lambda>k. i + k) (rev [0 ..< Suc (run c t i)])"
| "ends (Opt r) t i = ends r t i @ [i]"
| "ends (Seq r1 r2) t i = concat (map (ends r2 t) (ends r1 t i))"
| "ends WordB t i = (if word_boundary t i then [i] else [])"

text \<open>
  The pattern of line 48. Group 1 opens right after the one-octet bracket expression
  and closes at the end of the pattern, so \<open>m.start(1) = m.start() + 1\<close> and
  \<open>m.end(1) = m.end()\<close>; groups 2 and 3 are never read by the code.
\<close>

definition url_group :: regex where
  "url_group =
     Seq (Lit ''http'') (Seq (Opt (Lit ''s'')) (Seq (Lit ''://'')
     (Seq (Opt (Lit ''www.''))
     (Seq (Rep cls_host 1 256)
     (Seq (Lit ''.'')
     (Seq (Rep cls_tld 1 6)
     (Seq WordB
          (Opt (Seq (Star cls_path) (Cls cls_path_end))))))))))"

definition url_regex :: regex where
  "url_regex = Seq (Cls cls_boundary) url_group"

definition match_at :: "regex \<Rightarrow> bytes \<Rightarrow> nat \<Rightarrow> nat option" where
  "match_at r t i = (case ends r t i of [] \<Rightarrow> None | e # _ \<Rightarrow> Some e)"

text \<open>
  \<open>re.finditer\<close>: try the pattern at \<open>pos\<close>; on failure move one octet on, on success
  yield the match and go on from its end. A match of the URL pattern is never empty
  (it holds at least the octet before the scheme), so the rule for empty matches, here
  one octet on, never applies to it.
\<close>

function finditer :: "regex \<Rightarrow> bytes \<Rightarrow> nat \<Rightarrow> (nat \<times> nat) list" where
  "finditer r t pos =
     (if length t < pos then []
      else case match_at r t pos of
             None \<Rightarrow> finditer r t (pos + 1)
           | Some e \<Rightarrow> (pos, e) # finditer r t (max e (pos + 1)))"
  by pat_completeness auto
termination
  by (relation "measure (\<lambda>(r, t, pos). Suc (length t) - pos)") auto

declare finditer.simps [simp del]

section \<open>\<open>parse_urls\<close> and \<open>parse_facets\<close>\<close>

record span =
  span_start :: nat
  span_end :: nat
  span_url :: str

definition slice :: "'a list \<Rightarrow> nat \<Rightarrow> nat \<Rightarrow> 'a list" where
  "slice xs a b = take (b - a) (drop a xs)"

fun spans_of :: "bytes \<Rightarrow> (nat \<times> nat) list \<Rightarrow> error + span list" where
  "spans_of tb [] = Inr []"
| "spans_of tb ((s, e) # ms) =
     (case decode (slice tb (s + 1) e) of
        Inl er \<Rightarrow> Inl er
      | Inr u \<Rightarrow>
          (case spans_of tb ms of
             Inl er \<Rightarrow> Inl er
           | Inr sp \<Rightarrow> Inr (\<lparr>span_start = s + 1, span_end = e, span_url = u\<rparr> # sp)))"

definition parse_urls :: "str \<Rightarrow> error + span list" where
  "parse_urls text =
     (case encode text of
        Inl e \<Rightarrow> Inl e
      | Inr text_bytes \<Rightarrow> spans_of text_bytes (finditer url_regex text_bytes 0))"

text \<open>
  The facet objects are JSON-like dictionaries whose key names go on the wire, so they
  are kept as association lists with their keys spelled out.
\<close>

datatype json =
    JStr str
  | JNum nat
  | JArr "json list"
  | JObj "(string \<times> json) list"

definition jget :: "string \<Rightarrow> json \<Rightarrow> json option" where
  "jget k j = (case j of JObj kvs \<Rightarrow> map_of kvs k | _ \<Rightarrow> None)"

definition facet_of :: "span \<Rightarrow> json" where
  "facet_of u =
     JObj [(''index'', JObj [(''byteStart'', JNum (span_start u)),
                             (''byteEnd'', JNum (span_end u))]),
           (''features'', JArr [JObj [(''$type'', JStr (py ''app.bsky.richtext.facet#link'')),
                                      (''uri'', JStr (span_url u))]])]"

fun append_facets :: "json list \<Rightarrow> span list \<Rightarrow> json list" where
  "append_facets facets [] = facets"
| "append_facets facets (u # us) = append_facets (facets @ [facet_of u]) us"

definition parse_facets :: "str \<Rightarrow> error + json list" where
  "parse_facets text =
     (case parse_urls text of
        Inl e \<Rightarrow> Inl e
      | Inr spans \<Rightarrow> Inr (append_facets [] spans))"

section \<open>String methods used by the feed reader and the composer\<close>

text \<open>
  \<open>str.strip()\<close> removes leading and trailing code points for which \<open>str.isspace()\<close>
  holds.
\<close>

definition isspace :: "codepoint \<Rightarrow> bool" where
  "isspace c =
     ((0x09 \<le> c \<and> c \<le> 0x0D) \<or> (0x1C \<le> c \<and> c \<le> 0x20) \<or> c = 0x85 \<or> c = 0xA0
      \<or> c = 0x1680 \<or> (0x2000 \<le> c \<and> c \<le> 0x200A) \<or> c = 0x2028 \<or> c = 0x2029
      \<or> c = 0x202F \<or> c = 0x205F \<or> c = 0x3000)"

definition strip :: "str \<Rightarrow> str" where
  "strip s = rev (dropWhile isspace (rev (dropWhile isspace s)))"

text \<open>
  \<open>s.split(sep)\<close> and \<open>s.replace(old, new)\<close> scan from the left and skip over each
  occurrence they find. Both are only called with a non-empty literal \<open>sep\<close>/\<open>old\<close>;
  Python's treatment of an empty one is not modelled. \<open>seg\<close> holds the current segment,
  reversed.
\<close>

fun split_from :: "str \<Rightarrow> str \<Rightarrow> str \<Rightarrow> str list" where
  "split_from sep seg [] = [rev seg]"
| "split_from sep seg (c # cs) =
     (if take (length sep) (c # cs) = sep
      then rev seg # split_from sep [] (drop (length sep - 1) cs)
      else split_from sep (c # seg) cs)"

definition split :: "str \<Rightarrow> str \<Rightarrow> str list" where
  "split s sep = split_from sep [] s"

fun replace :: "str \<Rightarrow> str \<Rightarrow> str \<Rightarrow> str" where
  "replace [] old new = []"
| "replace (c # cs) old new =
     (if take (length old) (c # cs) = old
      then new @ replace (drop (length old - 1) cs) old new
      else c # replace cs old new)"

text \<open>\<open>''.join(s)\<close> on a string joins its one-character strings.\<close>

definition join_chars :: "str \<Rightarrow> str" where
  "join_chars s = concat (map (\<lambda>c. [c]) s)"

section \<open>Dictionaries\<close>

text \<open>
  A Python \<open>dict\<close> keeps its keys in insertion order: assigning to a key that is
  present replaces the value where it stands, assigning to a new key appends.
\<close>

type_synonym 'v dict = "(str \<times> 'v) list"

definition dict_in :: "str \<Rightarrow> 'v dict \<Rightarrow> bool" where
  "dict_in k d = (k \<in> set (map fst d))"

fun dict_set :: "'v dict \<Rightarrow> str \<Rightarrow> 'v \<Rightarrow> 'v dict" where
  "dict_set [] k v = [(k, v)]"
| "dict_set ((k', v') # d) k v =
     (if k' = k then (k, v) # d else (k', v') # dict_set d k v)"

section \<open>The feed and the archive\<close>

text \<open>
  \<open>entry\<close> is what the feed parser hands over for one RSS item, \<open>paper\<close> is the
  dictionary \<open>get_arxiv_feed\<close> builds from it. The type gives every entry its three
  fields, so an entry that lacks one is outside the model.
\<close>

record entry =
  entry_link :: str
  entry_title :: str
  entry_description :: str

record paper =
  title :: str
  link :: str
  description :: str

definition paper_of :: "entry \<Rightarrow> paper" where
  "paper_of e =
     \<lparr>title = strip (hd (split (entry_title e) (py ''.''))),
      link = strip (entry_link e),
      description = strip (replace (replace (entry_description e) (py ''<p>'') [])
                                   (py ''</p>'') [])\<rparr>"

fun build_feed :: "paper dict \<Rightarrow> entry list \<Rightarrow> paper dict" where
  "build_feed res [] = res"
| "build_feed res (e # es) = build_feed (dict_set res (strip (entry_link e)) (paper_of e)) es"

definition get_arxiv_feed :: "entry list \<Rightarrow> paper dict" where
  "get_arxiv_feed entries = build_feed [] entries"

text \<open>
  The archive file is absent, holds text that is no JSON, or holds the JSON of a
  dictionary (a file with other JSON in it, or one that cannot be opened for another
  reason, is outside the model). The state of the outside world a run can change is
  that file, the number of times it has been written, and the posts accepted by the
  network.
\<close>

datatype archive_file = Missing | Unparseable | Stored "paper dict"

record post =
  post_text :: str
  post_facets :: "json list option"

record world =
  archive_file :: archive_file
  writes :: nat
  published :: "post list"

definition load_archive :: "archive_file \<Rightarrow> error + paper dict" where
  "load_archive f =
     (case f of
        Missing \<Rightarrow> Inr []
      | Unparseable \<Rightarrow> Inl JSONDecodeError
      | Stored archive \<Rightarrow> Inr archive)"

fun merge_new :: "paper dict \<Rightarrow> paper dict \<Rightarrow> paper dict \<Rightarrow> paper dict" where
  "merge_new archive new_archive [] = new_archive"
| "merge_new archive new_archive ((k, v) # feed) =
     merge_new archive (if dict_in k archive then new_archive else dict_set new_archive k v) feed"

definition get_and_write_feed_json ::
    "entry list \<Rightarrow> world \<Rightarrow> (error + paper dict \<times> paper dict) \<times> world" where
  "get_and_write_feed_json entries w =
     (let feed = get_arxiv_feed entries in
      case load_archive (archive_file w) of
        Inl e \<Rightarrow> (Inl e, w)
      | Inr archive \<Rightarrow>
          (let new_archive = merge_new archive archive feed in
           (Inr (feed, archive),
            if length archive < length new_archive
            then w\<lparr>archive_file := Stored new_archive, writes := writes w + 1\<rparr>
            else w)))"

section \<open>Composing and publishing\<close>

definition abstract_fragment :: "paper \<Rightarrow> str" where
  "abstract_fragment v = strip (last (split (join_chars (description v)) (py ''Abstract:'')))"

definition post_content :: "paper \<Rightarrow> str" where
  "post_content v = title v @ [0x0A] @ link v @ [0x0A] @ abstract_fragment v"

definition post_suffix :: str where
  "post_suffix = py ''...'' @ [0x1F4C8, 0x1F916]"

definition post_str :: "paper \<Rightarrow> str" where
  "post_str v = take 293 (post_content v) @ post_suffix"

definition no_new_papers :: str where
  "no_new_papers = py ''No new papers today! '' @ [0x1F4C8, 0x1F916]"

text \<open>
  The network is a collaborator: \<open>session_ok\<close> says whether \<open>createSession\<close> succeeds,
  \<open>record_ok\<close> whether \<open>createRecord\<close> accepts a post. \<open>raise_for_status\<close> turns a
  refusal into \<open>HTTPError\<close>. The time stamp of a post and the pause between two posts
  do not bear on what is published and are left out.
\<close>

record pds =
  session_ok :: bool
  record_ok :: "post \<Rightarrow> bool"

definition create_post :: "pds \<Rightarrow> str \<Rightarrow> world \<Rightarrow> (error + unit) \<times> world" where
  "create_post net text w =
     (if session_ok net then
        (case (if 0 < length text then parse_facets text else Inr []) of
           Inl e \<Rightarrow> (Inl e, w)
         | Inr facets \<Rightarrow>
             (let p = \<lparr>post_text = text,
                       post_facets = (if facets = [] then None else Some facets)\<rparr>
              in if record_ok net p then (Inr (), w\<lparr>published := published w @ [p]\<rparr>)
                 else (Inl HTTPError, w)))
      else (Inl HTTPError, w))"

fun main_loop ::
    "pds \<Rightarrow> paper dict \<Rightarrow> paper dict \<Rightarrow> int \<Rightarrow> world
      \<Rightarrow> (error + paper dict \<times> int) \<times> world" where
  "main_loop net [] archive new_posts w = (Inr (archive, new_posts), w)"
| "main_loop net ((k, v) # pull) archive new_posts w =
     (if dict_in k archive then main_loop net pull archive new_posts w
      else
        (case create_post net (post_str v) w of
           (Inl e, w') \<Rightarrow> (Inl e, w')
         | (Inr u, w') \<Rightarrow> main_loop net pull (dict_set archive k v) (new_posts + 1) w'))"

text \<open>
  Line 246 reads \<^verbatim>\<open>new_posts == 0 & (len(archive) > 2)\<close>. In Python \<open>&\<close> binds
  tighter than \<open>==\<close>, so the test compares \<open>new_posts\<close> with the bitwise AND of \<open>0\<close>
  and the truth value (0 or 1) of the length test.
\<close>

definition no_new_test :: "int \<Rightarrow> paper dict \<Rightarrow> bool" where
  "no_new_test new_posts archive = (new_posts = (0 AND of_bool (2 < length archive)))"

definition main :: "pds \<Rightarrow> entry list \<Rightarrow> world \<Rightarrow> (error + unit) \<times> world" where
  "main net entries w =
     (case get_and_write_feed_json entries w of
        (Inl e, w1) \<Rightarrow> (Inl e, w1)
      | (Inr (pull, archive), w1) \<Rightarrow>
          (case main_loop net pull archive 0 w1 of
             (Inl e, w2) \<Rightarrow> (Inl e, w2)
           | (Inr (archive', new_posts), w2) \<Rightarrow>
               if no_new_test new_posts archive' then create_post net no_new_papers w2
               else (Inr (), w2)))"

section \<open>Notions used to state properties of the pattern\<close>

text \<open>
  \<open>atoms r\<close> lists what a pattern can consume: its bracket expressions, and a test for
  each octet of its literals. \<open>ascii\<close> holds of the octets below 0x80.
\<close>

primrec atoms :: "regex \<Rightarrow> (char \<Rightarrow> bool) list" where
  "atoms (Lit l) = map (\<lambda>c x. x = c) l"
| "atoms (Cls c) = [c]"
| "atoms (Rep c lo hi) = [c]"
| "atoms (Star c) = [c]"
| "atoms (Opt r) = atoms r"
| "atoms (Seq r1 r2) = atoms r1 @ atoms r2"
| "atoms WordB = []"

definition ascii :: "char \<Rightarrow> bool" where
  "ascii c = ((of_char c :: nat) < 128)"

text \<open>
  \<open>ws\<close> holds of the six ASCII whitespace octets. \<open>url_ok u\<close> says that the
  group of the pattern can match the octets \<open>u\<close> as a whole (what \<open>re.fullmatch\<close>
  would accept): this is what a well-formed URL is to the scanner. \<open>spaced ps\<close> is the
  text made of the pairs \<open>ps\<close>, each a run of whitespace followed by a URL;
  \<open>layout\<close> gives the matches and \<open>expected\<close> the spans such a text should yield.
\<close>

definition ws :: "char \<Rightarrow> bool" where
  "ws c = (c \<in> set [CHR 0x20, CHR 0x09, CHR 0x0A, CHR 0x0B, CHR 0x0C, CHR 0x0D])"

definition url_ok :: "bytes \<Rightarrow> bool" where
  "url_ok u = (length u \<in> set (ends url_group u 0))"

definition spaced :: "(bytes \<times> bytes) list \<Rightarrow> bytes" where
  "spaced ps = concat (map (\<lambda>(w, u). w @ u) ps)"

fun layout :: "nat \<Rightarrow> (bytes \<times> bytes) list \<Rightarrow> (nat \<times> nat) list" where
  "layout pos [] = []"
| "layout pos ((w, u) # ps) =
     (pos + length w - 1, pos + length w + length u) # layout (pos + length w + length u) ps"

fun expected :: "nat \<Rightarrow> (bytes \<times> bytes) list \<Rightarrow> span list" where
  "expected pos [] = []"
| "expected pos ((w, u) # ps) =
     \<lparr>span_start = pos + length w, span_end = pos + length w + length u, span_url = py u\<rparr>
     # expected (pos + length w + length u) ps"

section \<open>Example inputs\<close>

text \<open>A feed entry as the feed parser delivers it, and a paper with a long title.\<close>

definition e0 :: entry where
  "e0 = \<lparr>entry_link = py ''http://x'', entry_title = py ''Foo bar. baz'',
         entry_description = py ''<p>Abstract: hello world</p>''\<rparr>"

definition long_paper :: paper where
  "long_paper = \<lparr>title = replicate 300 0x61, link = py ''http://x'', description = []\<rparr>"

definition net_ok :: pds where
  "net_ok = \<lparr>session_ok = True, record_ok = \<lambda>p. True\<rparr>"

definition eA :: entry where
  "eA = \<lparr>entry_link = py '' http://a.org/1 '', entry_title = py ''A study. Part 1'',
         entry_description = py ''<p>No marker here</p>''\<rparr>"

definition w_empty :: world where
  "w_empty = \<lparr>archive_file = Missing, writes = 0, published = []\<rparr>"

definition post_bytes_e0 :: bytes where
  "post_bytes_e0 = ''Foo bar'' @ [CHR 0x0A] @ ''http://x'' @ [CHR 0x0A] @ ''hello world...''
      @ [CHR 0xF0, CHR 0x9F, CHR 0x93, CHR 0x88, CHR 0xF0, CHR 0x9F, CHR 0xA4, CHR 0x96]"

definition no_new_bytes :: bytes where
  "no_new_bytes = ''No new papers today! ''
      @ [CHR 0xF0, CHR 0x9F, CHR 0x93, CHR 0x88, CHR 0xF0, CHR 0x9F, CHR 0xA4, CHR 0x96]"

definition w_A :: world where
  "w_A = \<lparr>archive_file = Stored [(py ''http://a.org/1'', paper_of eA)], writes = 0,
          published = []\<rparr>"

definition w_corrupt :: world where
  "w_corrupt = \<lparr>archive_file = Unparseable, writes = 0, published = []\<rparr>"

definition two_markers :: paper where
  "two_markers = \<lparr>title = py ''T'', link = py ''http://x'',
                  description = py ''Abstract: one Abstract: two''\<rparr>"

text \<open>
  \<open>occurs sep s\<close> is Python's \<open>sep in s\<close> for strings: \<open>sep\<close> stands somewhere in
  \<open>s\<close>. It is only used to state properties.
\<close>

fun occurs :: "str \<Rightarrow> str \<Rightarrow> bool" where
  "occurs sep [] = (sep = [])"
| "occurs sep (c # cs) = (take (length sep) (c # cs) = sep \<or> occurs sep cs)"

section \<open>Facts about strings, dictionaries and the steps of a run\<close>

lemma encode_cp_ascii: "(of_char c :: nat) < 128 \<Longrightarrow> encode_cp (of_char c) = Inr [c]"
  by (simp add: encode_cp_def)

lemma encode_py: "\<forall>c\<in>set s. (of_char c :: nat) < 128 \<Longrightarrow> encode (py s) = Inr s"
  by (induction s) (simp_all add: py_def encode_cp_ascii)

lemma decode_ascii: "\<forall>c\<in>set bs. (of_char c :: nat) < 128 \<Longrightarrow> decode bs = Inr (py bs)"
  by (induction bs) (simp_all add: py_def)

lemma encode_append:
  "encode (a @ b) = (case encode a of Inl e \<Rightarrow> Inl e | Inr x \<Rightarrow> (case encode b of Inl e \<Rightarrow> Inl e | Inr y \<Rightarrow> Inr (x @ y)))"
  by (induction a) (auto split: sum.splits)

lemma encode_cp_chart: "encode_cp 0x1F4C8 = Inr [CHR 0xF0, CHR 0x9F, CHR 0x93, CHR 0x88]"
  by (simp add: encode_cp_def char_of_def bit_Suc_0_iff)

lemma encode_cp_robot: "encode_cp 0x1F916 = Inr [CHR 0xF0, CHR 0x9F, CHR 0xA4, CHR 0x96]"
  by (simp add: encode_cp_def char_of_def bit_Suc_0_iff)



lemma paper_e0: "paper_of e0 = \<lparr>title = py ''Foo bar'', link = py ''http://x'', description = py ''Abstract: hello world''\<rparr>"
  by (simp add: e0_def paper_of_def split_def strip_def isspace_def py_def)

lemma post_e0: "post_str (paper_of e0) = py ''Foo bar'' @ [10] @ py ''http://x'' @ [10] @ py ''hello world...'' @ [0x1F4C8, 0x1F916]"
  by (simp add: paper_e0 post_str_def post_content_def abstract_fragment_def split_def strip_def isspace_def join_chars_def post_suffix_def py_def)

lemma keys_dict_set: "set (map fst (dict_set d k v)) = insert k (set (map fst d))"
  by (induction d k v rule: dict_set.induct) auto

lemma dict_in_set: "dict_in k' (dict_set d k v) = (k' = k \<or> dict_in k' d)"
  unfolding dict_in_def keys_dict_set by auto

lemma dict_set_new: "\<not> dict_in k d \<Longrightarrow> dict_set d k v = d @ [(k, v)]"
  by (induction d k v rule: dict_set.induct) (auto simp: dict_in_def)

lemma distinct_dict_set: "distinct (map fst d) \<Longrightarrow> distinct (map fst (dict_set d k v))"
proof (induction d k v rule: dict_set.induct)
  case (1 k v)
  then show ?case by simp
next
  case (2 k' v' d k v)
  then show ?case using keys_dict_set [of d k v] by auto
qed

lemma distinct_build_feed:
  "distinct (map fst res) \<Longrightarrow> distinct (map fst (build_feed res es))"
  by (induction es arbitrary: res) (simp_all add: distinct_dict_set)

lemma distinct_feed: "distinct (map fst (get_arxiv_feed entries))"
  by (simp add: get_arxiv_feed_def distinct_build_feed)

lemma merge_new_eq:
  "distinct (map fst feed) \<Longrightarrow>
   \<forall>k\<in>set (map fst feed). dict_in k new_archive \<longrightarrow> dict_in k archive \<Longrightarrow>
   merge_new archive new_archive feed
     = new_archive @ filter (\<lambda>(k, v). \<not> dict_in k archive) feed"
proof (induction feed arbitrary: new_archive)
  case Nil
  then show ?case by simp
next
  case (Cons kv feed)
  obtain k v where kv: "kv = (k, v)" by (cases kv)
  show ?case
  proof (cases "dict_in k archive")
    case True
    with Cons kv show ?thesis by simp
  next
    case False
    with Cons.prems kv have nk: "\<not> dict_in k new_archive" by auto
    have "\<forall>k'\<in>set (map fst feed). dict_in k' (new_archive @ [(k, v)]) \<longrightarrow> dict_in k' archive"
      using Cons.prems kv by (auto simp: dict_in_def)
    with Cons.IH [of "new_archive @ [(k, v)]"] Cons.prems
    have "merge_new archive (new_archive @ [(k, v)]) feed
            = (new_archive @ [(k, v)]) @ filter (\<lambda>(k, v). \<not> dict_in k archive) feed"
      by simp
    with False nk kv show ?thesis by (simp add: dict_set_new)
  qed
qed

lemma create_post_ok:
  "create_post net text w = (Inr u, w') \<Longrightarrow>
     map post_text (published w') = map post_text (published w) @ [text]
     \<and> archive_file w' = archive_file w \<and> writes w' = writes w"
  by (auto simp: create_post_def Let_def split: if_splits sum.splits)

lemma main_loop_result:
  "distinct (map fst pull) \<Longrightarrow>
   main_loop net pull archive n w = (Inr (archive', n'), w') \<Longrightarrow>
   archive' = archive @ filter (\<lambda>(k, v). \<not> dict_in k archive) pull
   \<and> n' = n + int (length (filter (\<lambda>(k, v). \<not> dict_in k archive) pull))
   \<and> archive_file w' = archive_file w \<and> writes w' = writes w
   \<and> map post_text (published w')
       = map post_text (published w)
         @ map (\<lambda>(k, v). post_str v) (filter (\<lambda>(k, v). \<not> dict_in k archive) pull)"
proof (induction pull arbitrary: archive n w)
  case Nil
  then show ?case by simp
next
  case (Cons kv pull)
  obtain k v where kv: "kv = (k, v)" by (cases kv)
  show ?case
  proof (cases "dict_in k archive")
    case True
    with Cons kv show ?thesis by simp
  next
    case False
    from Cons.prems(2) kv False obtain w1 where
      cp: "create_post net (post_str v) w = (Inr (), w1)" and
      ml: "main_loop net pull (dict_set archive k v) (n + 1) w1 = (Inr (archive', n'), w')"
      by (auto split: prod.splits sum.splits)
    note p = create_post_ok [OF cp]
    have same: "filter (\<lambda>(k', v'). \<not> dict_in k' (dict_set archive k v)) pull
                  = filter (\<lambda>(k', v'). \<not> dict_in k' archive) pull"
      using Cons.prems(1) kv by (intro filter_cong) (force simp: dict_in_set)+
    from Cons.IH [OF _ ml] Cons.prems(1) same False kv p
    show ?thesis by (simp add: dict_set_new)
  qed
qed

lemma create_post_file:
  "archive_file (snd (create_post net text w)) = archive_file w
   \<and> writes (snd (create_post net text w)) = writes w"
  by (simp add: create_post_def Let_def split: sum.splits)

lemma main_loop_file:
  "archive_file (snd (main_loop net pull archive n w)) = archive_file w
   \<and> writes (snd (main_loop net pull archive n w)) = writes w"
proof (induction pull arbitrary: archive n w)
  case Nil
  then show ?case by simp
next
  case (Cons kv pull)
  obtain k v where kv: "kv = (k, v)" by (cases kv)
  show ?case
    using Cons.IH create_post_file [of net "post_str v" w] kv
    by (auto split: prod.splits sum.splits)
qed

lemma feed_step:
  "load_archive (archive_file w) = Inr archive \<Longrightarrow>
   get_and_write_feed_json entries w =
     (Inr (get_arxiv_feed entries, archive),
      if filter (\<lambda>(k, v). \<not> dict_in k archive) (get_arxiv_feed entries) = [] then w
      else w\<lparr>archive_file :=
                Stored (archive @ filter (\<lambda>(k, v). \<not> dict_in k archive) (get_arxiv_feed entries)),
              writes := writes w + 1\<rparr>)"
  by (simp add: get_and_write_feed_json_def Let_def merge_new_eq distinct_feed)

lemma encode_no_new: "encode no_new_papers = Inr no_new_bytes"
  unfolding no_new_papers_def encode_append no_new_bytes_def
  by (simp add: encode_py encode_cp_chart encode_cp_robot)

lemma finditer_no_new: "finditer url_regex no_new_bytes 0 = []"
  by code_simp

lemma facets_no_new: "parse_facets no_new_papers = Inr []"
  by (simp add: parse_facets_def parse_urls_def encode_no_new finditer_no_new)

lemma encode_post_e0: "encode (post_str (paper_of e0)) = Inr post_bytes_e0"
proof -
  have "post_str (paper_of e0) = py (''Foo bar'' @ [CHR 0x0A] @ ''http://x'' @ [CHR 0x0A] @ ''hello world...'') @ [0x1F4C8, 0x1F916]"
    by (simp add: post_e0 py_def)
  then show ?thesis
    by (simp add: encode_append encode_py encode_cp_chart encode_cp_robot post_bytes_e0_def)
qed

lemma finditer_post_e0: "finditer url_regex post_bytes_e0 0 = []"
  by code_simp

lemma facets_post_e0: "parse_facets (post_str (paper_of e0)) = Inr []"
  by (simp add: parse_facets_def parse_urls_def encode_post_e0 finditer_post_e0)

lemma no_new_test_eq: "no_new_test n a = (n = 0)"
  by (simp add: no_new_test_def)

lemma paper_eA:
  "paper_of eA = \<lparr>title = py ''A study'', link = py ''http://a.org/1'', description = py ''No marker here''\<rparr>"
  by (simp add: eA_def paper_of_def split_def strip_def isspace_def py_def)

lemma feed_A_e0:
  "get_arxiv_feed [eA, e0] = [(py ''http://a.org/1'', paper_of eA), (py ''http://x'', paper_of e0)]"
  by (simp add: get_arxiv_feed_def paper_e0 paper_eA)
     (simp add: eA_def e0_def strip_def isspace_def py_def)

lemma new_A_e0:
  "filter (\<lambda>(k, v). \<not> dict_in k [(py ''http://a.org/1'', paper_of eA)]) (get_arxiv_feed [eA, e0])
     = [(py ''http://x'', paper_of e0)]"
  by (simp add: feed_A_e0 dict_in_def py_def)

lemma create_post_e0:
  "create_post net_ok (post_str (paper_of e0)) w
     = (Inr (), w\<lparr>published := published w
                       @ [\<lparr>post_text = post_str (paper_of e0), post_facets = None\<rparr>]\<rparr>)"
  by (simp add: create_post_def facets_post_e0 net_ok_def)

lemma main_loop_A_e0:
  "main_loop net_ok (get_arxiv_feed [eA, e0]) [(py ''http://a.org/1'', paper_of eA)] 0 w
     = (Inr ([(py ''http://a.org/1'', paper_of eA), (py ''http://x'', paper_of e0)], 1),
        w\<lparr>published := published w
                @ [\<lparr>post_text = post_str (paper_of e0), post_facets = None\<rparr>]\<rparr>)"
  by (simp add: feed_A_e0 create_post_e0) (simp add: dict_in_def py_def)

lemma main_file:
  "archive_file (snd (main net entries w)) = archive_file (snd (get_and_write_feed_json entries w))
   \<and> writes (snd (main net entries w)) = writes (snd (get_and_write_feed_json entries w))"
proof (cases "get_and_write_feed_json entries w")
  case (Pair r w1)
  show ?thesis
  proof (cases r)
    case (Inl e)
    with Pair show ?thesis by (simp add: main_def)
  next
    case (Inr pa)
    obtain pull archive where pa: "pa = (pull, archive)" by (cases pa)
    obtain r2 w2 where ml: "main_loop net pull archive 0 w1 = (r2, w2)"
      by (cases "main_loop net pull archive 0 w1")
    from main_loop_file [of net pull archive 0 w1] ml
    have w2: "archive_file w2 = archive_file w1" "writes w2 = writes w1" by simp_all
    show ?thesis
    proof (cases r2)
      case (Inl e)
      with Pair Inr pa ml w2 show ?thesis by (simp add: main_def)
    next
      case (Inr an)
      obtain a' n where an: "an = (a', n)" by (cases an)
      from Pair \<open>r = Inr pa\<close> pa ml Inr an w2 create_post_file [of net no_new_papers w2]
      show ?thesis by (simp add: main_def)
    qed
  qed
qed

lemma distinct_keys_filter:
  "distinct (map fst xs) \<Longrightarrow> distinct (map fst (filter P xs))"
  by (induction xs) auto

lemma file_A_e0:
  "archive_file (snd (main net_ok [eA, e0] w_A))
     = Stored [(py ''http://a.org/1'', paper_of eA), (py ''http://x'', paper_of e0)]"
proof -
  have l: "load_archive (archive_file w_A) = Inr [(py ''http://a.org/1'', paper_of eA)]"
    by (simp add: w_A_def load_archive_def)
  from feed_step [OF l, of "[eA, e0]"] main_file [of net_ok "[eA, e0]" w_A]
  show ?thesis unfolding new_A_e0 by simp
qed

lemma join_chars_id: "join_chars s = s"
  by (induction s) (simp_all add: join_chars_def)

lemma split_from_nonempty: "split_from sep seg s \<noteq> []"
  by (induction sep seg s rule: split_from.induct) auto

lemma split_from_none: "\<not> occurs sep s \<Longrightarrow> split_from sep seg s = [rev seg @ s]"
  by (induction s arbitrary: seg) auto

lemma no_overlap:
  assumes "take (length sep) (a @ sep @ b) = sep" and "a \<noteq> []" and "sep \<noteq> []"
    and "hd sep \<notin> set (tl sep)"
  shows "length sep \<le> length a"
proof (rule ccontr)
  assume "\<not> length sep \<le> length a"
  then have lt: "length a < length sep" by simp
  from lt have "take (length sep) (a @ sep @ b) ! length a = (a @ sep @ b) ! length a"
    by (rule nth_take)
  with assms(1) have "(a @ sep @ b) ! length a = sep ! length a" by simp
  with assms(3) have "hd sep = sep ! length a"
    by (simp add: nth_append hd_conv_nth)
  moreover from assms(2) lt have "sep ! length a \<in> set (tl sep)"
    by (cases sep; cases a) auto
  ultimately show False using assms(4) by simp
qed

lemma split_from_last:
  assumes "sep \<noteq> []" and "hd sep \<notin> set (tl sep)"
  shows "last (split_from sep seg (a @ sep @ b)) = last (split_from sep [] b)"
proof (induction "length a" arbitrary: a seg rule: less_induct)
  case less
  show ?case
  proof (cases a)
    case Nil
    from assms(1) obtain c cs where sep: "sep = c # cs" by (cases sep) auto
    with Nil show ?thesis by (simp add: split_from_nonempty)
  next
    case (Cons c a')
    show ?thesis
    proof (cases "take (length sep) (a @ sep @ b) = sep")
      case True
      from no_overlap [OF True _ assms] Cons have le: "length sep \<le> length a" by simp
      with assms(1) Cons have d: "drop (length sep - 1) (a' @ sep @ b) = drop (length sep - 1) a' @ sep @ b"
        by (cases sep) auto
      have "length (drop (length sep - 1) a') < length a" using Cons by simp
      from less [OF this] True Cons d show ?thesis
        by (simp add: split_from_nonempty)
    next
      case False
      have "length a' < length a" using Cons by simp
      from less [OF this] False Cons show ?thesis by simp
    qed
  qed
qed

lemma dropWhile_self: "xs = [] \<or> \<not> P (hd xs) \<Longrightarrow> dropWhile P xs = xs"
  by (cases xs) auto

lemma last_dropWhile: "dropWhile P xs \<noteq> [] \<Longrightarrow> last (dropWhile P xs) = last xs"
proof -
  assume n: "dropWhile P xs \<noteq> []"
  have "xs = takeWhile P xs @ dropWhile P xs" by simp
  then have "last xs = last (takeWhile P xs @ dropWhile P xs)" by simp
  also from n have "\<dots> = last (dropWhile P xs)" by (rule last_appendR)
  finally show ?thesis by simp
qed

lemma strip_strip: "strip (strip s) = strip s"
proof -
  define y where "y = dropWhile isspace s"
  define z where "z = dropWhile isspace (rev y)"
  have x: "strip s = rev z" by (simp add: strip_def y_def z_def)
  have hz: "z = [] \<or> \<not> isspace (hd z)"
    unfolding z_def using hd_dropWhile [of isspace "rev y"] by blast
  have hy: "y = [] \<or> \<not> isspace (hd y)"
    unfolding y_def using hd_dropWhile [of isspace s] by blast
  have hr: "rev z = [] \<or> \<not> isspace (hd (rev z))"
  proof (cases "z = []")
    case True
    then show ?thesis by simp
  next
    case False
    then have "last z = last (rev y)" unfolding z_def by (rule last_dropWhile)
    moreover from False have "y \<noteq> []" unfolding z_def by auto
    ultimately have "hd (rev z) = hd y" using False by (simp add: hd_rev last_rev)
    with hy \<open>y \<noteq> []\<close> show ?thesis by simp
  qed
  have "strip (rev z) = rev (dropWhile isspace (rev (dropWhile isspace (rev z))))"
    by (simp add: strip_def)
  also have "dropWhile isspace (rev z) = rev z" using hr by (rule dropWhile_self)
  also have "rev (rev z) = z" by simp
  also have "dropWhile isspace z = z" using hz by (rule dropWhile_self)
  finally show ?thesis unfolding x .
qed

lemma occurs_iff: "occurs sep s = (\<exists>a b. s = a @ sep @ b)"
proof (induction s)
  case Nil
  then show ?case by auto
next
  case (Cons c cs)
  show ?case
  proof
    assume "occurs sep (c # cs)"
    then consider "take (length sep) (c # cs) = sep" | "occurs sep cs" by auto
    then show "\<exists>a b. c # cs = a @ sep @ b"
    proof cases
      case 1
      then have "c # cs = [] @ sep @ drop (length sep) (c # cs)"
        by (metis append_Nil append_take_drop_id)
      then show ?thesis by blast
    next
      case 2
      with Cons obtain a b where "cs = a @ sep @ b" by auto
      then have "c # cs = (c # a) @ sep @ b" by simp
      then show ?thesis by blast
    qed
  next
    assume "\<exists>a b. c # cs = a @ sep @ b"
    then obtain a b where ab: "c # cs = a @ sep @ b" by auto
    show "occurs sep (c # cs)"
    proof (cases a)
      case Nil
      with ab have "take (length sep) (c # cs) = sep" by simp
      then show ?thesis by simp
    next
      case (Cons c' a')
      with ab have "cs = a' @ sep @ b" by simp
      with Cons.IH have "occurs sep cs" by blast
      then show ?thesis by simp
    qed
  qed
qed

section \<open>Facts about the pattern and the scanner\<close>

lemma run_le: "run c t i \<le> length t - i"
  unfolding run_def using length_takeWhile_le [of c "drop i t"] by simp

lemma ends_Rep_set:
  "set (ends (Rep c lo hi) t i) = {i + lo .. i + min hi (run c t i)}"
proof -
  have "set (ends (Rep c lo hi) t i) = (\<lambda>k. i + k) ` {lo ..< Suc (min hi (run c t i))}"
    by (simp only: ends.simps set_map set_rev set_upt)
  also have "\<dots> = {i + lo .. i + min hi (run c t i)}"
    by auto
  finally show ?thesis .
qed

lemma ends_Star_set:
  "set (ends (Star c) t i) = {i .. i + run c t i}"
proof -
  have "set (ends (Star c) t i) = (\<lambda>k. i + k) ` {0 ..< Suc (run c t i)}"
    by (simp only: ends.simps set_map set_rev set_upt)
  also have "\<dots> = {i .. i + run c t i}"
    by auto
  finally show ?thesis .
qed

lemma run_all: "k < run c t i \<Longrightarrow> c (t ! (i + k))"
proof -
  assume k: "k < run c t i"
  then have "k < length (takeWhile c (drop i t))" by (simp add: run_def)
  then have "c (takeWhile c (drop i t) ! k)" by (metis nth_mem set_takeWhileD)
  moreover from k have "takeWhile c (drop i t) ! k = drop i t ! k"
    by (simp add: run_def takeWhile_nth)
  moreover have "i + k < length t"
    using k length_takeWhile_le [of c "drop i t"] by (simp add: run_def)
  ultimately show ?thesis by simp
qed

lemma ends_range:
  "i \<le> length t \<Longrightarrow> e \<in> set (ends r t i) \<Longrightarrow> i \<le> e \<and> e \<le> length t"
proof (induction r arbitrary: i e)
  case (Lit l)
  from Lit.prems(2) have tk: "take (length l) (drop i t) = l" and e: "e = i + length l"
    by (simp_all split: if_splits)
  from tk have "length (take (length l) (drop i t)) = length l" by simp
  then have "length l \<le> length t - i" by simp
  with Lit.prems(1) e show ?case by simp
next
  case (Cls c)
  then show ?case by (simp split: if_splits)
next
  case (Rep c lo hi)
  then have "i \<le> e" "e \<le> i + run c t i" unfolding ends_Rep_set by auto
  with run_le [of c t i] Rep.prems(1) show ?case by simp
next
  case (Star c)
  then have "i \<le> e" "e \<le> i + run c t i" unfolding ends_Star_set by simp_all
  with run_le [of c t i] Star.prems(1) show ?case by simp
next
  case (Opt r)
  from Opt.prems(2) have "e \<in> set (ends r t i) \<or> e = i" by auto
  with Opt.IH [OF Opt.prems(1)] Opt.prems(1) show ?case by blast
next
  case (Seq r1 r2)
  from Seq.prems(2) obtain m where m: "m \<in> set (ends r1 t i)" "e \<in> set (ends r2 t m)" by auto
  from Seq.IH(1) [OF Seq.prems(1) m(1)] have "i \<le> m" "m \<le> length t" by simp_all
  with Seq.IH(2) [OF _ m(2)] show ?case by simp
next
  case WordB
  then show ?case by (simp split: if_splits)
qed

lemma ends_atoms:
  "\<forall>p\<in>set (atoms r). \<forall>c. p c \<longrightarrow> A c \<Longrightarrow> i \<le> length t \<Longrightarrow> e \<in> set (ends r t i) \<Longrightarrow>
   i \<le> j \<Longrightarrow> j < e \<Longrightarrow> A (t ! j)"
proof (induction r arbitrary: i e)
  case (Lit l)
  from Lit.prems(3) have tk: "take (length l) (drop i t) = l" and e: "e = i + length l"
    by (simp_all split: if_splits)
  from Lit.prems e have jl: "j - i < length l" by simp
  from tk have "l ! (j - i) = take (length l) (drop i t) ! (j - i)" by simp
  also from jl have "\<dots> = drop i t ! (j - i)" by simp
  also from Lit.prems have "\<dots> = t ! j" by simp
  finally have "t ! j = l ! (j - i)" by simp
  moreover from jl have "l ! (j - i) \<in> set l" by simp
  ultimately show ?case using Lit.prems(1) by simp
next
  case (Cls c)
  from Cls.prems(3) have "e = i + 1" "c (t ! i)" by (simp_all split: if_splits)
  with Cls.prems have "j = i" by simp
  with \<open>c (t ! i)\<close> Cls.prems(1) show ?case by simp
next
  case (Rep c lo hi)
  then have "e \<le> i + run c t i" unfolding ends_Rep_set by auto
  with Rep.prems have "j - i < run c t i" by simp
  from run_all [OF this] Rep.prems show ?case by simp
next
  case (Star c)
  then have "e \<le> i + run c t i" unfolding ends_Star_set by simp
  with Star.prems have "j - i < run c t i" by simp
  from run_all [OF this] Star.prems show ?case by simp
next
  case (Opt r)
  from Opt.prems(3) have "e \<in> set (ends r t i) \<or> e = i" by auto
  then show ?case
  proof
    assume "e \<in> set (ends r t i)"
    from Opt.IH [OF _ Opt.prems(2) this Opt.prems(4,5)] Opt.prems(1) show ?thesis by simp
  next
    assume "e = i"
    with Opt.prems(4,5) show ?thesis by simp
  qed
next
  case (Seq r1 r2)
  from Seq.prems(3) obtain m where m: "m \<in> set (ends r1 t i)" "e \<in> set (ends r2 t m)" by auto
  from ends_range [OF Seq.prems(2) m(1)] have mr: "i \<le> m" "m \<le> length t" by simp_all
  from Seq.prems(1) have a1: "\<forall>p\<in>set (atoms r1). \<forall>c. p c \<longrightarrow> A c"
    and a2: "\<forall>p\<in>set (atoms r2). \<forall>c. p c \<longrightarrow> A c" by auto
  show ?case
  proof (cases "j < m")
    case True
    from Seq.IH(1) [OF a1 Seq.prems(2) m(1) Seq.prems(4) True] show ?thesis .
  next
    case False
    then have "m \<le> j" by simp
    from Seq.IH(2) [OF a2 mr(2) m(2) this Seq.prems(5)] show ?thesis .
  qed
next
  case WordB
  from WordB.prems(3) have "e = i" by (simp split: if_splits)
  with WordB.prems(4,5) show ?case by simp
qed

lemma alnum_ascii: "alnum c \<Longrightarrow> ascii c"
  by (auto simp: alnum_def between_def ascii_def)

lemma cls_host_ascii: "cls_host c \<Longrightarrow> ascii c"
  unfolding cls_host_def using alnum_ascii [of c] by (auto simp: ascii_def)

lemma cls_tld_ascii: "cls_tld c \<Longrightarrow> ascii c"
  unfolding cls_tld_def using alnum_ascii [of c] by (auto simp: ascii_def)

lemma cls_path_ascii: "cls_path c \<Longrightarrow> ascii c"
  unfolding cls_path_def using alnum_ascii [of c] by (auto simp: ascii_def)

lemma cls_path_end_ascii: "cls_path_end c \<Longrightarrow> ascii c"
  unfolding cls_path_end_def using alnum_ascii [of c] by (auto simp: ascii_def)

lemma atoms_url_group: "\<forall>p\<in>set (atoms url_group). \<forall>c. p c \<longrightarrow> ascii c"
  using cls_host_ascii cls_tld_ascii cls_path_ascii cls_path_end_ascii
  by (simp add: url_group_def) (simp add: ascii_def)

lemma match_atD: "match_at r t i = Some e \<Longrightarrow> e \<in> set (ends r t i)"
  by (auto simp: match_at_def split: list.splits)

lemma ends_url_regex:
  "ends url_regex t s = (if s < length t \<and> cls_boundary (t ! s) then ends url_group t (s + 1) else [])"
  by (auto simp: url_regex_def)

lemma match_url_regex:
  "match_at url_regex t s = Some e \<Longrightarrow>
     s < length t \<and> cls_boundary (t ! s) \<and> match_at url_group t (s + 1) = Some e"
  by (simp add: match_at_def ends_url_regex split: if_splits)

lemma finditer_mem:
  "(s, e) \<in> set (finditer r t pos) \<Longrightarrow> pos \<le> s \<and> s \<le> length t \<and> match_at r t s = Some e"
proof (induction r t pos rule: finditer.induct)
  case (1 r t pos)
  show ?case
  proof (cases "length t < pos")
    case True
    with "1.prems" show ?thesis by (simp add: finditer.simps [of r t pos])
  next
    case False
    show ?thesis
    proof (cases "match_at r t pos")
      case None
      with False "1.prems" have "(s, e) \<in> set (finditer r t (pos + 1))"
        by (simp add: finditer.simps [of r t pos])
      from "1.IH"(1) [OF False None this] show ?thesis by simp
    next
      case (Some e')
      with False "1.prems" have "(s, e) = (pos, e') \<or> (s, e) \<in> set (finditer r t (max e' (pos + 1)))"
        by (simp add: finditer.simps [of r t pos])
      then show ?thesis
      proof
        assume "(s, e) = (pos, e')"
        with Some False show ?thesis by simp
      next
        assume "(s, e) \<in> set (finditer r t (max e' (pos + 1)))"
        from "1.IH"(2) [OF False Some this] show ?thesis by simp
      qed
    qed
  qed
qed

lemma finditer_sorted:
  "sorted_wrt (\<lambda>a b. snd a \<le> fst b \<and> fst a < fst b) (finditer r t pos)"
proof (induction r t pos rule: finditer.induct)
  case (1 r t pos)
  show ?case
  proof (cases "length t < pos")
    case True
    then show ?thesis by (simp add: finditer.simps [of r t pos])
  next
    case False
    show ?thesis
    proof (cases "match_at r t pos")
      case None
      with False "1.IH"(1) show ?thesis by (simp add: finditer.simps [of r t pos])
    next
      case (Some e')
      have "e' \<le> fst b \<and> pos < fst b" if "b \<in> set (finditer r t (max e' (pos + 1)))" for b
        using finditer_mem [of "fst b" "snd b" r t "max e' (pos + 1)"] that by simp
      with False Some "1.IH"(2) show ?thesis by (simp add: finditer.simps [of r t pos])
    qed
  qed
qed

lemma slice_nth: "j < b - a \<Longrightarrow> b \<le> length xs \<Longrightarrow> slice xs a b ! j = xs ! (a + j)"
  by (simp add: slice_def)

lemma length_slice: "b \<le> length xs \<Longrightarrow> length (slice xs a b) = b - a"
  by (simp add: slice_def)

lemma url_match_ascii:
  assumes "match_at url_regex t s = Some e"
  shows "s + 1 \<le> e \<and> e \<le> length t \<and> (\<forall>c\<in>set (slice t (s + 1) e). ascii c)"
proof -
  from match_url_regex [OF assms] have s: "s + 1 \<le> length t"
    and m: "e \<in> set (ends url_group t (s + 1))"
    by (simp_all add: match_atD)
  from ends_range [OF s m] have r: "s + 1 \<le> e" "e \<le> length t" by simp_all
  have "ascii c" if "c \<in> set (slice t (s + 1) e)" for c
  proof -
    from that obtain j where j: "j < length (slice t (s + 1) e)" "c = slice t (s + 1) e ! j"
      by (auto simp: in_set_conv_nth)
    with r have jl: "j < e - (s + 1)" by (simp add: length_slice)
    with j r have "c = t ! (s + 1 + j)" by (simp add: slice_nth)
    moreover from jl have "s + 1 \<le> s + 1 + j" "s + 1 + j < e" by simp_all
    ultimately show ?thesis using ends_atoms [OF atoms_url_group s m] by simp
  qed
  with r show ?thesis by simp
qed

lemma spans_of_eq:
  "\<forall>(s, e)\<in>set ms. match_at url_regex tb s = Some e \<Longrightarrow>
   spans_of tb ms
     = Inr (map (\<lambda>(s, e). \<lparr>span_start = s + 1, span_end = e,
                            span_url = py (slice tb (s + 1) e)\<rparr>) ms)"
proof (induction ms)
  case Nil
  then show ?case by simp
next
  case (Cons m ms)
  obtain s e where m: "m = (s, e)" by (cases m)
  with Cons.prems have "match_at url_regex tb s = Some e" by simp
  from url_match_ascii [OF this] have "decode (slice tb (s + 1) e) = Inr (py (slice tb (s + 1) e))"
    by (intro decode_ascii) (simp add: ascii_def)
  with Cons m show ?case by simp
qed

lemma parse_urls_eq:
  "parse_urls text =
     (case encode text of
        Inl e \<Rightarrow> Inl e
      | Inr tb \<Rightarrow>
          Inr (map (\<lambda>(s, e). \<lparr>span_start = s + 1, span_end = e,
                                span_url = py (slice tb (s + 1) e)\<rparr>)
                   (finditer url_regex tb 0)))"
proof (cases "encode text")
  case (Inl e)
  then show ?thesis by (simp add: parse_urls_def)
next
  case (Inr tb)
  have "\<forall>(s, e)\<in>set (finditer url_regex tb 0). match_at url_regex tb s = Some e"
    using finditer_mem [of _ _ url_regex tb 0] by auto
  from spans_of_eq [OF this] Inr show ?thesis by (simp add: parse_urls_def)
qed

lemma append_facets_eq: "append_facets facets spans = facets @ map facet_of spans"
  by (induction spans arbitrary: facets) simp_all

lemma concat_map_Cons:
  "concat (map f xs) = e # es \<Longrightarrow> \<exists>x\<in>set xs. \<exists>es'. f x = e # es'"
proof (induction xs)
  case Nil
  then show ?case by simp
next
  case (Cons x xs)
  show ?case
  proof (cases "f x")
    case Nil
    with Cons show ?thesis by simp
  next
    case (Cons a as)
    with Cons.prems show ?thesis by simp
  qed
qed

lemma match_Seq:
  "match_at (Seq a b) t i = Some e \<Longrightarrow> \<exists>m\<in>set (ends a t i). match_at b t m = Some e"
proof -
  assume "match_at (Seq a b) t i = Some e"
  then obtain es where "concat (map (ends b t) (ends a t i)) = e # es"
    by (auto simp: match_at_def split: list.splits)
  from concat_map_Cons [OF this] obtain m es' where
    "m \<in> set (ends a t i)" "ends b t m = e # es'" by blast
  then have "m \<in> set (ends a t i)" "match_at b t m = Some e" by (simp_all add: match_at_def)
  then show ?thesis by blast
qed

lemma mem_Seq:
  "e \<in> set (ends (Seq a b) t i) \<Longrightarrow> \<exists>m\<in>set (ends a t i). e \<in> set (ends b t m)"
  by auto

lemma url_group_chain:
  assumes step: "\<And>a b i. Q (Seq a b) i \<Longrightarrow> \<exists>m\<in>set (ends a t i). Q b m"
    and "Q url_group i" and "i \<le> length t"
  shows "\<exists>m. i < m \<and> m \<le> length t \<and> cls_tld (t ! (m - 1)) \<and> word_boundary t m
             \<and> Q (Opt (Seq (Star cls_path) (Cls cls_path_end))) m"
proof -
  from assms(2) obtain m1 where m1: "m1 \<in> set (ends (Lit ''http'') t i)"
    and r1: "Q (Seq (Opt (Lit ''s'')) (Seq (Lit ''://'')
     (Seq (Opt (Lit ''www.''))
     (Seq (Rep cls_host 1 256)
     (Seq (Lit ''.'')
     (Seq (Rep cls_tld 1 6)
     (Seq WordB
          (Opt (Seq (Star cls_path) (Cls cls_path_end)))))))))) m1"
    unfolding url_group_def by (blast dest: step)
  from r1 obtain m2 where m2: "m2 \<in> set (ends (Opt (Lit ''s'')) t m1)"
    and r2: "Q (Seq (Lit ''://'')
     (Seq (Opt (Lit ''www.''))
     (Seq (Rep cls_host 1 256)
     (Seq (Lit ''.'')
     (Seq (Rep cls_tld 1 6)
     (Seq WordB
          (Opt (Seq (Star cls_path) (Cls cls_path_end))))))))) m2"
    by (blast dest: step)
  from r2 obtain m3 where m3: "m3 \<in> set (ends (Lit ''://'') t m2)"
    and r3: "Q (Seq (Opt (Lit ''www.''))
     (Seq (Rep cls_host 1 256)
     (Seq (Lit ''.'')
     (Seq (Rep cls_tld 1 6)
     (Seq WordB
          (Opt (Seq (Star cls_path) (Cls cls_path_end)))))))) m3"
    by (blast dest: step)
  from r3 obtain m4 where m4: "m4 \<in> set (ends (Opt (Lit ''www.'')) t m3)"
    and r4: "Q (Seq (Rep cls_host 1 256)
     (Seq (Lit ''.'')
     (Seq (Rep cls_tld 1 6)
     (Seq WordB
          (Opt (Seq (Star cls_path) (Cls cls_path_end))))))) m4"
    by (blast dest: step)
  from r4 obtain m5 where m5: "m5 \<in> set (ends (Rep cls_host 1 256) t m4)"
    and r5: "Q (Seq (Lit ''.'')
     (Seq (Rep cls_tld 1 6)
     (Seq WordB
          (Opt (Seq (Star cls_path) (Cls cls_path_end)))))) m5"
    by (blast dest: step)
  from r5 obtain m6 where m6: "m6 \<in> set (ends (Lit ''.'') t m5)"
    and r6: "Q (Seq (Rep cls_tld 1 6)
     (Seq WordB
          (Opt (Seq (Star cls_path) (Cls cls_path_end))))) m6"
    by (blast dest: step)
  from r6 obtain m7 where m7: "m7 \<in> set (ends (Rep cls_tld 1 6) t m6)"
    and r7: "Q (Seq WordB
          (Opt (Seq (Star cls_path) (Cls cls_path_end)))) m7"
    by (blast dest: step)
  from r7 obtain m8 where m8: "m8 \<in> set (ends WordB t m7)"
    and r8: "Q (Opt (Seq (Star cls_path) (Cls cls_path_end))) m8"
    by (blast dest: step)
  from ends_range [OF assms(3) m1] have b1: "i \<le> m1" "m1 \<le> length t" by simp_all
  from ends_range [OF b1(2) m2] have b2: "m1 \<le> m2" "m2 \<le> length t" by simp_all
  from ends_range [OF b2(2) m3] have b3: "m2 \<le> m3" "m3 \<le> length t" by simp_all
  from ends_range [OF b3(2) m4] have b4: "m3 \<le> m4" "m4 \<le> length t" by simp_all
  from ends_range [OF b4(2) m5] have b5: "m4 \<le> m5" "m5 \<le> length t" by simp_all
  from ends_range [OF b5(2) m6] have b6: "m5 \<le> m6" "m6 \<le> length t" by simp_all
  from ends_range [OF b6(2) m7] have b7: "m6 \<le> m7" "m7 \<le> length t" by simp_all
  from m7 have k: "m6 + 1 \<le> m7" "m7 \<le> m6 + run cls_tld t m6"
    unfolding ends_Rep_set by auto
  then have "m7 - 1 - m6 < run cls_tld t m6" by simp
  from run_all [OF this] k have tld: "cls_tld (t ! (m7 - 1))" by simp
  from m8 have w: "m8 = m7" "word_boundary t m7" by (simp_all split: if_splits)
  from b1 b2 b3 b4 b5 b6 k have "i < m7" by simp
  with b7 tld w r8 show ?thesis by blast
qed

lemma url_group_tail:
  assumes "match_at url_group t i = Some e" and "i \<le> length t"
  shows "\<exists>m. i < m \<and> m \<le> length t \<and> cls_tld (t ! (m - 1)) \<and> word_boundary t m
             \<and> match_at (Opt (Seq (Star cls_path) (Cls cls_path_end))) t m = Some e"
  using url_group_chain [where Q = "\<lambda>r i. match_at r t i = Some e", OF match_Seq assms] .

lemma url_group_tail_mem:
  assumes "e \<in> set (ends url_group t i)" and "i \<le> length t"
  shows "\<exists>m. i < m \<and> m \<le> length t \<and> cls_tld (t ! (m - 1)) \<and> word_boundary t m
             \<and> e \<in> set (ends (Opt (Seq (Star cls_path) (Cls cls_path_end))) t m)"
  using url_group_chain [where Q = "\<lambda>r i. e \<in> set (ends r t i)", OF mem_Seq assms] .

lemma word_path_end: "is_word c \<Longrightarrow> cls_path_end c"
  by (auto simp: is_word_def cls_path_end_def)

lemma tld_not_word: "cls_tld c \<Longrightarrow> \<not> cls_path_end c \<Longrightarrow> \<not> is_word c"
  using word_path_end by blast

lemma path_mem:
  "e \<in> set (ends (Seq (Star cls_path) (Cls cls_path_end)) t m) \<Longrightarrow>
     m < e \<and> e \<le> length t \<and> cls_path_end (t ! (e - 1))"
proof -
  assume "e \<in> set (ends (Seq (Star cls_path) (Cls cls_path_end)) t m)"
  then obtain k where k: "k \<in> set (ends (Star cls_path) t m)"
    and e: "e \<in> set (ends (Cls cls_path_end) t k)" by auto
  from k have "m \<le> k" unfolding ends_Star_set by simp
  moreover from e have "e = k + 1" "k < length t" "cls_path_end (t ! k)"
    by (simp_all split: if_splits)
  ultimately show ?thesis by simp
qed

lemma path_nonempty:
  assumes "word_at t m"
  shows "ends (Seq (Star cls_path) (Cls cls_path_end)) t m \<noteq> []"
proof -
  from assms have m: "m < length t" "cls_path_end (t ! m)"
    by (simp_all add: word_at_def word_path_end)
  have "m \<in> set (ends (Star cls_path) t m)" unfolding ends_Star_set by simp
  moreover from m have "m + 1 \<in> set (ends (Cls cls_path_end) t m)" by simp
  ultimately have "m + 1 \<in> set (ends (Seq (Star cls_path) (Cls cls_path_end)) t m)"
    unfolding ends.simps set_concat set_map by blast
  then show ?thesis by (metis empty_iff empty_set)
qed

lemma match_Opt:
  "match_at (Opt r) t m = (case ends r t m of [] \<Rightarrow> Some m | e # es \<Rightarrow> Some e)"
  by (simp add: match_at_def split: list.splits)

lemma url_group_last:
  assumes "match_at url_group t i = Some e" and "i \<le> length t"
  shows "i < e \<and> e \<le> length t \<and> cls_path_end (t ! (e - 1))"
proof -
  let ?path = "Seq (Star cls_path) (Cls cls_path_end)"
  from url_group_tail [OF assms] obtain m where m: "i < m" "m \<le> length t"
    and tld: "cls_tld (t ! (m - 1))" and wb: "word_boundary t m"
    and opt: "match_at (Opt ?path) t m = Some e" by blast
  show ?thesis
  proof (cases "ends ?path t m")
    case Nil
    from opt have e: "e = m" unfolding match_Opt Nil by simp
    have "cls_path_end (t ! (m - 1))"
    proof (rule ccontr)
      assume "\<not> cls_path_end (t ! (m - 1))"
      with tld have "\<not> is_word (t ! (m - 1))" by (rule tld_not_word)
      then have "\<not> word_at t (m - 1)" by (simp add: word_at_def)
      with wb have "word_at t m" by (simp add: word_boundary_def)
      from path_nonempty [OF this] Nil show False by simp
    qed
    with e m show ?thesis by simp
  next
    case (Cons e' es)
    from opt have "e = e'" unfolding match_Opt Cons by simp
    with Cons have "e \<in> set (ends ?path t m)" by simp
    from path_mem [OF this] m show ?thesis by simp
  qed
qed

lemma url_match_last:
  assumes "match_at url_regex t s = Some e"
  shows "s + 1 < e \<and> e \<le> length t \<and> cls_path_end (t ! (e - 1))"
proof -
  from match_url_regex [OF assms] have "s + 1 \<le> length t"
    and "match_at url_group t (s + 1) = Some e" by simp_all
  from url_group_last [OF this(2,1)] show ?thesis .
qed

lemma path_end_not_punct: "cls_path_end c \<Longrightarrow> (of_char c :: nat) \<notin> set (py ''.,;:!?()&'')"
  by (auto simp: cls_path_end_def alnum_def between_def py_def)

lemma last_slice: "a < b \<Longrightarrow> b \<le> length xs \<Longrightarrow> slice xs a b \<noteq> [] \<and> last (slice xs a b) = xs ! (b - 1)"
proof -
  assume ab: "a < b" "b \<le> length xs"
  then have l: "length (slice xs a b) = b - a" by (simp add: length_slice)
  with ab have n: "slice xs a b \<noteq> []" by auto
  then have "last (slice xs a b) = slice xs a b ! (length (slice xs a b) - 1)"
    by (rule last_conv_nth)
  also from ab l have "\<dots> = xs ! (a + (b - a - 1))" by (simp add: slice_nth)
  also from ab have "a + (b - a - 1) = b - 1" by simp
  finally show ?thesis using n by simp
qed

lemma span_last:
  assumes "parse_urls text = Inr spans" and "u \<in> set spans"
  shows "span_url u \<noteq> [] \<and> (\<exists>c. cls_path_end c \<and> last (span_url u) = of_char c)"
proof -
  from assms(1) obtain tb where tb: "encode text = Inr tb"
    and sp: "spans = map (\<lambda>(s, e). \<lparr>span_start = s + 1, span_end = e,
                                span_url = py (slice tb (s + 1) e)\<rparr>)
                   (finditer url_regex tb 0)"
    unfolding parse_urls_eq by (auto split: sum.splits)
  from assms(2) sp obtain s e where se: "(s, e) \<in> set (finditer url_regex tb 0)"
    and u: "span_url u = py (slice tb (s + 1) e)" by auto
  from finditer_mem [OF se] have "match_at url_regex tb s = Some e" by simp
  from url_match_last [OF this] have r: "s + 1 < e" "e \<le> length tb"
    and q: "cls_path_end (tb ! (e - 1))" by simp_all
  from last_slice [OF r] have n: "slice tb (s + 1) e \<noteq> []"
    and l: "last (slice tb (s + 1) e) = tb ! (e - 1)" by simp_all
  from n u have "span_url u \<noteq> []" by (simp add: py_def)
  moreover from n l u have "last (span_url u) = of_char (tb ! (e - 1))"
    by (simp add: py_def last_map)
  ultimately show ?thesis using q by blast
qed

lemma parse_urls_ascii:
  "\<forall>c\<in>set s. (of_char c :: nat) < 128 \<Longrightarrow>
   parse_urls (py s)
     = Inr (map (\<lambda>(a, e). \<lparr>span_start = a + 1, span_end = e, span_url = py (slice s (a + 1) e)\<rparr>)
                (finditer url_regex s 0))"
  by (simp add: parse_urls_eq encode_py)

lemma finditer_see:
  "finditer url_regex ''see http://a.com/x. also http://b.org'' 0 = [(3, 18), (24, 37)]"
  by code_simp

lemma finditer_start: "finditer url_regex ''http://a.com'' 0 = []"
  by code_simp

lemma finditer_space: "finditer url_regex '' http://a.com'' 0 = [(0, 13)]"
  by code_simp

lemma finditer_two: "finditer url_regex ''http://a.com http://b.org'' 0 = [(12, 25)]"
  by code_simp

lemma finditer_one: "finditer url_regex ''a http://a.com b'' 0 = [(1, 14)]"
  by code_simp

lemma parse_urls_see:
  "parse_urls (py ''see http://a.com/x. also http://b.org'')
     = Inr [\<lparr>span_start = 4, span_end = 18, span_url = py ''http://a.com/x''\<rparr>,
            \<lparr>span_start = 25, span_end = 37, span_url = py ''http://b.org''\<rparr>]"
  by (simp add: parse_urls_ascii finditer_see slice_def)

section \<open>Texts of URLs and whitespace\<close>

text \<open>
  What holds of the scanner for every text: the spans come in increasing order and do
  not overlap, each starts after an octet of \<open>[$|\W]\<close>, and each URL is the decoded
  slice of the encoded text between its offsets. And for a text made of well-formed
  URLs, each with whitespace before it: the scanner returns exactly these URLs, in
  order, with their offsets (\<open>spaced_urls_all_found\<close>).
\<close>

lemma spans_ordered:
  assumes "parse_urls text = Inr spans"
  shows "sorted_wrt (\<lambda>a b. span_end a < span_start b) spans"
proof -
  from assms obtain tb where
    sp: "spans = map (\<lambda>(s, e). \<lparr>span_start = s + 1, span_end = e,
                                span_url = py (slice tb (s + 1) e)\<rparr>)
                   (finditer url_regex tb 0)"
    unfolding parse_urls_eq by (auto split: sum.splits)
  have "sorted_wrt (\<lambda>a b. snd a < fst b + 1) (finditer url_regex tb 0)"
    by (rule sorted_wrt_mono_rel [OF _ finditer_sorted]) auto
  then show ?thesis
    unfolding sp by (simp add: sorted_wrt_map case_prod_unfold)
qed

lemma span_is_slice:
  assumes "parse_urls text = Inr spans" and "encode text = Inr tb" and "u \<in> set spans"
  shows "0 < span_start u \<and> span_start u < span_end u \<and> span_end u \<le> length tb
         \<and> cls_boundary (tb ! (span_start u - 1))
         \<and> decode (slice tb (span_start u) (span_end u)) = Inr (span_url u)"
proof -
  from assms(1,2) have
    sp: "spans = map (\<lambda>(s, e). \<lparr>span_start = s + 1, span_end = e,
                                span_url = py (slice tb (s + 1) e)\<rparr>)
                   (finditer url_regex tb 0)"
    unfolding parse_urls_eq by simp
  from assms(3) sp obtain s e where se: "(s, e) \<in> set (finditer url_regex tb 0)"
    and u: "u = \<lparr>span_start = s + 1, span_end = e, span_url = py (slice tb (s + 1) e)\<rparr>"
    by auto
  from finditer_mem [OF se] have m: "match_at url_regex tb s = Some e" by simp
  from url_match_last [OF m] have r: "s + 1 < e" "e \<le> length tb" by simp_all
  from match_url_regex [OF m] have b: "cls_boundary (tb ! s)" by simp
  from url_match_ascii [OF m] have "decode (slice tb (s + 1) e) = Inr (py (slice tb (s + 1) e))"
    by (intro decode_ascii) (simp add: ascii_def)
  with r b u show ?thesis by simp
qed

lemma ws_not_word: "ws c \<Longrightarrow> \<not> is_word c"
  by (auto simp: ws_def is_word_def alnum_def between_def)

lemma ws_boundary: "ws c \<Longrightarrow> cls_boundary c"
  by (simp add: cls_boundary_def ws_not_word)

lemma ws_ascii: "ws c \<Longrightarrow> ascii c"
  by (auto simp: ws_def ascii_def)

lemma path_not_ws: "cls_path c \<Longrightarrow> \<not> ws c"
  by (auto simp: ws_def cls_path_def alnum_def between_def)

lemma alnum_path: "alnum c \<Longrightarrow> cls_path c"
  by (simp add: cls_path_def)

lemma atoms_url_group_path: "\<forall>p\<in>set (atoms url_group). \<forall>c. p c \<longrightarrow> cls_path c"
  by (simp add: url_group_def)
     (auto simp: cls_path_def cls_host_def cls_tld_def cls_path_end_def alnum_def between_def)

lemma takeWhile_append_stop:
  "ys = [] \<or> \<not> P (hd ys) \<Longrightarrow> takeWhile P (xs @ ys) = takeWhile P xs"
  by (induction xs) (auto simp: takeWhile_eq_Nil_iff)

lemma run_embed:
  assumes "post = [] \<or> \<not> c (hd post)" and "i \<le> length u"
  shows "run c (pre @ u @ post) (length pre + i) = run c u i"
proof -
  from assms(2) have "drop (length pre + i) (pre @ u @ post) = drop i u @ post" by simp
  moreover have "takeWhile c (drop i u @ post) = takeWhile c (drop i u)"
    using assms(1) by (rule takeWhile_append_stop)
  ultimately show ?thesis by (simp add: run_def)
qed

lemma lit_embed:
  assumes "post = [] \<or> hd post \<notin> set l" and "i \<le> length u"
  shows "(take (length l) (drop (length pre + i) (pre @ u @ post)) = l)
           = (take (length l) (drop i u) = l)"
proof -
  let ?xs = "drop i u"
  from assms(2) have d: "drop (length pre + i) (pre @ u @ post) = ?xs @ post" by simp
  show ?thesis
  proof (cases "length l \<le> length ?xs")
    case True
    then show ?thesis unfolding d by simp
  next
    case False
    then have short: "length ?xs < length l" by simp
    then have r: "take (length l) ?xs \<noteq> l" by auto
    have "take (length l) (?xs @ post) \<noteq> l"
    proof
      assume eq: "take (length l) (?xs @ post) = l"
      show False
      proof (cases post)
        case Nil
        with eq r show False by simp
      next
        case (Cons c cs)
        from eq have "l ! length ?xs = take (length l) (?xs @ post) ! length ?xs" by simp
        also from short have "\<dots> = (?xs @ post) ! length ?xs" by (rule nth_take)
        also from Cons have "\<dots> = c" by (simp add: nth_append)
        finally have "c \<in> set l" using short by (metis nth_mem)
        with assms(1) Cons show False by simp
      qed
    qed
    with r show ?thesis unfolding d by simp
  qed
qed

lemma word_at_embed:
  assumes "post = [] \<or> \<not> is_word (hd post)" and "i \<le> length u"
  shows "word_at (pre @ u @ post) (length pre + i) = word_at u i"
proof (cases "i < length u")
  case True
  then show ?thesis by (simp add: word_at_def nth_append)
next
  case False
  with assms(2) have i: "i = length u" by simp
  show ?thesis
  proof (cases post)
    case Nil
    with i show ?thesis by (simp add: word_at_def)
  next
    case (Cons c cs)
    with assms(1) i show ?thesis by (simp add: word_at_def nth_append)
  qed
qed

lemma word_before_embed:
  assumes "pre = [] \<or> \<not> is_word (last pre)" and "i \<le> length u"
  shows "(0 < length pre + i \<and> word_at (pre @ u @ post) (length pre + i - 1))
           = (0 < i \<and> word_at u (i - 1))"
proof (cases "0 < i")
  case True
  with assms(2) have j: "length pre + i - 1 = length pre + (i - 1)" and l: "i - 1 < length u"
    by simp_all
  from l have "(pre @ u @ post) ! (length pre + (i - 1)) = u ! (i - 1)"
    by (simp add: nth_append)
  moreover from l have "length pre + (i - 1) < length (pre @ u @ post)" by simp
  ultimately have "word_at (pre @ u @ post) (length pre + (i - 1)) = word_at u (i - 1)"
    using l unfolding word_at_def by simp
  with True j show ?thesis by simp
next
  case False
  then have i: "i = 0" by simp
  show ?thesis
  proof (cases "pre = []")
    case True
    with i show ?thesis by simp
  next
    case False
    with assms(1) have "\<not> is_word (last pre)" by simp
    moreover from False have "(pre @ u @ post) ! (length pre - 1) = last pre"
      by (simp add: nth_append last_conv_nth)
    ultimately show ?thesis using i by (simp add: word_at_def)
  qed
qed

lemma ends_embed:
  assumes "\<forall>p\<in>set (atoms r). \<forall>c. p c \<longrightarrow> \<not> ws c"
    and "post = [] \<or> ws (hd post)"
    and "pre = [] \<or> \<not> is_word (last pre)"
    and "i \<le> length u"
  shows "ends r (pre @ u @ post) (length pre + i) = map (\<lambda>e. length pre + e) (ends r u i)"
  using assms(1,4)
proof (induction r arbitrary: i)
  case (Lit l)
  from Lit.prems(1) assms(2) have "post = [] \<or> hd post \<notin> set l" by auto
  from lit_embed [OF this Lit.prems(2), of pre] show ?case by simp
next
  case (Cls c)
  show ?case
  proof (cases "i < length u")
    case True
    then show ?thesis by (simp add: nth_append)
  next
    case False
    with Cls.prems(2) have i: "i = length u" by simp
    show ?thesis
    proof (cases post)
      case Nil
      with i show ?thesis by simp
    next
      case (Cons d ds)
      with assms(2) Cls.prems(1) have "\<not> c d" by auto
      with Cons i show ?thesis by (simp add: nth_append)
    qed
  qed
next
  case (Rep c lo hi)
  from Rep.prems(1) assms(2) have "post = [] \<or> \<not> c (hd post)" by auto
  then have "run c (pre @ u @ post) (length pre + i) = run c u i"
    using Rep.prems(2) by (rule run_embed)
  then show ?case by (simp add: add.assoc)
next
  case (Star c)
  from Star.prems(1) assms(2) have "post = [] \<or> \<not> c (hd post)" by auto
  then have "run c (pre @ u @ post) (length pre + i) = run c u i"
    using Star.prems(2) by (rule run_embed)
  then show ?case by (simp add: add.assoc)
next
  case (Opt r)
  then show ?case by simp
next
  case (Seq r1 r2)
  from Seq.prems(1) have a1: "\<forall>p\<in>set (atoms r1). \<forall>c. p c \<longrightarrow> \<not> ws c"
    and a2: "\<forall>p\<in>set (atoms r2). \<forall>c. p c \<longrightarrow> \<not> ws c" by auto
  have step: "ends r2 (pre @ u @ post) (length pre + m) = map (\<lambda>e. length pre + e) (ends r2 u m)"
    if "m \<in> set (ends r1 u i)" for m
    using Seq.IH(2) [OF a2] ends_range [OF Seq.prems(2) that] by simp
  have "ends (Seq r1 r2) (pre @ u @ post) (length pre + i)
          = concat (map (ends r2 (pre @ u @ post)) (map (\<lambda>e. length pre + e) (ends r1 u i)))"
    using Seq.IH(1) [OF a1 Seq.prems(2)] by simp
  also have "\<dots> = concat (map (\<lambda>m. ends r2 (pre @ u @ post) (length pre + m)) (ends r1 u i))"
    by (simp add: comp_def)
  also have "map (\<lambda>m. ends r2 (pre @ u @ post) (length pre + m)) (ends r1 u i)
               = map (\<lambda>m. map (\<lambda>e. length pre + e) (ends r2 u m)) (ends r1 u i)"
    by (rule map_cong [OF refl]) (rule step)
  also have "concat (map (\<lambda>m. map (\<lambda>e. length pre + e) (ends r2 u m)) (ends r1 u i))
               = map (\<lambda>e. length pre + e) (ends (Seq r1 r2) u i)"
    by (simp add: map_concat comp_def)
  finally show ?case .
next
  case WordB
  from assms(2) have "post = [] \<or> \<not> is_word (hd post)" using ws_not_word by blast
  from word_at_embed [OF this WordB.prems(2), of pre]
    word_before_embed [OF assms(3) WordB.prems(2), of post]
  show ?case by (simp add: word_boundary_def)
qed

lemma url_ok_last:
  assumes "url_ok u"
  shows "0 < length u \<and> cls_path_end (u ! (length u - 1))"
proof -
  let ?path = "Seq (Star cls_path) (Cls cls_path_end)"
  from assms have mem: "length u \<in> set (ends url_group u 0)" by (simp add: url_ok_def)
  from url_group_tail_mem [OF mem] obtain m where m: "0 < m" "m \<le> length u"
    and wb: "word_boundary u m" and e: "length u \<in> set (ends (Opt ?path) u m)" by auto
  from e have "length u \<in> set (ends ?path u m) \<or> length u = m" by auto
  then show ?thesis
  proof
    assume "length u \<in> set (ends ?path u m)"
    from path_mem [OF this] have "m < length u" "cls_path_end (u ! (length u - 1))"
      by simp_all
    then show ?thesis by auto
  next
    assume l: "length u = m"
    then have "\<not> word_at u m" by (simp add: word_at_def)
    with wb have "word_at u (m - 1)" by (simp add: word_boundary_def)
    then have "cls_path_end (u ! (m - 1))" by (simp add: word_at_def word_path_end)
    with l m show ?thesis by simp
  qed
qed

lemma url_ok_path:
  assumes "url_ok u" and "j < length u"
  shows "cls_path (u ! j)"
proof -
  from assms(1) have mem: "length u \<in> set (ends url_group u 0)" by (simp add: url_ok_def)
  from ends_atoms [OF atoms_url_group_path _ mem _ assms(2)] show ?thesis by simp
qed

lemma opt_path_full:
  assumes "m \<le> length u" and "\<forall>j<length u. cls_path (u ! j)"
    and "0 < length u" and "cls_path_end (u ! (length u - 1))"
  shows "match_at (Opt (Seq (Star cls_path) (Cls cls_path_end))) u m = Some (length u)"
proof (cases "m = length u")
  case True
  then have "run cls_path u m = 0" by (simp add: run_def)
  with True have "ends (Seq (Star cls_path) (Cls cls_path_end)) u m = []" by simp
  with True show ?thesis by (simp only: match_Opt list.case)
next
  case False
  with assms(1) have lt: "m < length u" by simp
  have "\<forall>x\<in>set (drop m u). cls_path x"
    using assms(2) by (auto simp: in_set_conv_nth)
  then have tw: "takeWhile cls_path (drop m u) = drop m u" by (simp add: takeWhile_eq_all_conv)
  have r: "run cls_path u m = Suc (length u - m - 1)" unfolding run_def tw using lt by simp
  have s: "ends (Star cls_path) u m
             = length u # (length u - 1) # map (\<lambda>k. m + k) (rev [0 ..< length u - m - 1])"
    using lt by (simp add: r)
  have "ends (Seq (Star cls_path) (Cls cls_path_end)) u m
          = length u # concat (map (ends (Cls cls_path_end) u)
                                   (map (\<lambda>k. m + k) (rev [0 ..< length u - m - 1])))"
    unfolding ends.simps(6) s using assms(3,4) by simp
  then show ?thesis by (simp only: match_Opt list.case)
qed

lemma url_ok_first:
  assumes "url_ok u"
  shows "match_at url_group u 0 = Some (length u)"
proof -
  from assms have mem: "length u \<in> set (ends url_group u 0)" by (simp add: url_ok_def)
  then obtain e0 where e0: "match_at url_group u 0 = Some e0"
    by (cases "ends url_group u 0") (auto simp: match_at_def)
  from url_group_chain [where Q = "\<lambda>r i. match_at r u i = Some e0", OF match_Seq e0]
  obtain m where m: "m \<le> length u"
    and opt: "match_at (Opt (Seq (Star cls_path) (Cls cls_path_end))) u m = Some e0" by auto
  from url_ok_last [OF assms] url_ok_path [OF assms]
  have "match_at (Opt (Seq (Star cls_path) (Cls cls_path_end))) u m = Some (length u)"
    by (intro opt_path_full [OF m]) simp_all
  with opt e0 show ?thesis by simp
qed

lemma finditer_skip:
  "match_at r t pos = None \<Longrightarrow> pos \<le> length t \<Longrightarrow> finditer r t pos = finditer r t (pos + 1)"
  by (simp add: finditer.simps [of r t pos])

lemma finditer_hit:
  "match_at r t pos = Some e \<Longrightarrow> pos \<le> length t \<Longrightarrow>
     finditer r t pos = (pos, e) # finditer r t (max e (pos + 1))"
  by (simp add: finditer.simps [of r t pos])

lemma finditer_end: "length t < pos \<Longrightarrow> finditer r t pos = []"
  by (simp add: finditer.simps [of r t pos])

lemma url_group_needs_h:
  assumes "drop i t = [] \<or> hd (drop i t) \<noteq> CHR ''h''"
  shows "ends url_group t i = []"
proof -
  from assms have "take (length ''http'') (drop i t) \<noteq> ''http''"
    by (cases "drop i t") auto
  then have "ends (Lit ''http'') t i = []" by (simp only: ends.simps if_False)
  then show ?thesis unfolding url_group_def ends.simps(6) by simp
qed

lemma no_match_before:
  assumes "drop (pos + 1) t = [] \<or> hd (drop (pos + 1) t) \<noteq> CHR ''h''"
  shows "match_at url_regex t pos = None"
  using url_group_needs_h [OF assms] by (simp add: match_at_def ends_url_regex)

lemma ws_not_h: "ws c \<Longrightarrow> c \<noteq> CHR ''h''"
  by (auto simp: ws_def)

lemma finditer_ws_run:
  assumes "\<forall>c\<in>set w. ws c" and "rest = [] \<or> ws (hd rest)"
  shows "finditer url_regex (pre @ w @ rest) (length pre)
           = finditer url_regex (pre @ w @ rest) (length pre + length w)"
  using assms(1)
proof (induction w arbitrary: pre)
  case Nil
  then show ?case by simp
next
  case (Cons c w)
  let ?t = "pre @ (c # w) @ rest"
  have d: "drop (length pre + 1) ?t = w @ rest" by simp
  have "w @ rest = [] \<or> hd (w @ rest) \<noteq> CHR ''h''"
  proof (cases w)
    case Nil
    with assms(2) show ?thesis using ws_not_h by auto
  next
    case (Cons c' w')
    with Cons.prems show ?thesis using ws_not_h by auto
  qed
  with d have "match_at url_regex ?t (length pre) = None"
    by (intro no_match_before) simp
  then have "finditer url_regex ?t (length pre) = finditer url_regex ?t (length pre + 1)"
    by (rule finditer_skip) simp
  also have "\<dots> = finditer url_regex ((pre @ [c]) @ w @ rest) (length (pre @ [c]))" by simp
  also from Cons.prems have "\<dots> = finditer url_regex ((pre @ [c]) @ w @ rest)
                                      (length (pre @ [c]) + length w)"
    by (intro Cons.IH) simp
  finally show ?case by simp
qed

lemma finditer_tail:
  assumes "\<forall>c\<in>set tail. ws c"
  shows "finditer url_regex (pre @ tail) (length pre) = []"
proof -
  let ?t = "pre @ tail"
  from finditer_ws_run [OF assms, of "[]" pre]
  have "finditer url_regex ?t (length pre) = finditer url_regex ?t (length ?t)" by simp
  also have "\<dots> = finditer url_regex ?t (length ?t + 1)"
    by (intro finditer_skip no_match_before) simp_all
  also have "\<dots> = []" by (rule finditer_end) simp
  finally show ?thesis .
qed

lemma atoms_url_group_not_ws: "\<forall>p\<in>set (atoms url_group). \<forall>c. p c \<longrightarrow> \<not> ws c"
  using atoms_url_group_path path_not_ws by blast

lemma match_spaced_url:
  assumes "ws c" and "url_ok u" and "post = [] \<or> ws (hd post)"
  shows "match_at url_regex (pre @ c # u @ post) (length pre) = Some (length pre + 1 + length u)"
proof -
  let ?t = "pre @ c # u @ post"
  have t: "?t = (pre @ [c]) @ u @ post" by simp
  from assms(1) have "pre @ [c] = [] \<or> \<not> is_word (last (pre @ [c]))"
    by (simp add: ws_not_word)
  from ends_embed [OF atoms_url_group_not_ws assms(3) this, of 0 u]
  have "ends url_group ?t (length pre + 1) = map (\<lambda>e. length pre + 1 + e) (ends url_group u 0)"
    unfolding t by simp
  moreover from url_ok_first [OF assms(2)] obtain es where "ends url_group u 0 = length u # es"
    by (auto simp: match_at_def split: list.splits)
  ultimately have "ends url_group ?t (length pre + 1)
                     = (length pre + 1 + length u) # map (\<lambda>e. length pre + 1 + e) es"
    by simp
  moreover from assms(1) have "cls_boundary (?t ! length pre)" by (simp add: ws_boundary)
  ultimately show ?thesis by (simp add: match_at_def ends_url_regex)
qed

lemma spaced_post:
  assumes "\<forall>(w, u)\<in>set ps. w \<noteq> [] \<and> (\<forall>c\<in>set w. ws c) \<and> url_ok u" and "\<forall>c\<in>set tail. ws c"
  shows "spaced ps @ tail = [] \<or> ws (hd (spaced ps @ tail))"
proof (cases ps)
  case Nil
  with assms(2) show ?thesis by (cases tail) (simp_all add: spaced_def)
next
  case (Cons p ps')
  obtain w u where p: "p = (w, u)" by (cases p)
  with Cons assms(1) have "w \<noteq> []" "\<forall>c\<in>set w. ws c" by simp_all
  then have "ws (hd w)" by (cases w) simp_all
  with Cons p \<open>w \<noteq> []\<close> show ?thesis by (simp add: spaced_def)
qed

lemma finditer_spaced:
  assumes "\<forall>(w, u)\<in>set ps. w \<noteq> [] \<and> (\<forall>c\<in>set w. ws c) \<and> url_ok u" and "\<forall>c\<in>set tail. ws c"
  shows "finditer url_regex (pre @ spaced ps @ tail) (length pre) = layout (length pre) ps"
  using assms(1)
proof (induction ps arbitrary: pre)
  case Nil
  from finditer_tail [OF assms(2)] show ?case by (simp add: spaced_def)
next
  case (Cons p ps)
  obtain w u where p: "p = (w, u)" by (cases p)
  with Cons.prems have w: "w \<noteq> []" "\<forall>c\<in>set w. ws c" and u: "url_ok u"
    and rest: "\<forall>(w, u)\<in>set ps. w \<noteq> [] \<and> (\<forall>c\<in>set w. ws c) \<and> url_ok u" by simp_all
  from w(1) obtain w' c where wc: "w = w' @ [c]" by (cases w rule: rev_cases) auto
  with w(2) have c: "ws c" and w': "\<forall>c\<in>set w'. ws c" by simp_all
  let ?post = "spaced ps @ tail"
  let ?t = "pre @ spaced (p # ps) @ tail"
  have t1: "?t = pre @ w' @ (c # u @ ?post)" by (simp add: spaced_def p wc)
  have t2: "?t = (pre @ w') @ c # u @ ?post" by (simp add: spaced_def p wc)
  have t3: "?t = (pre @ w @ u) @ spaced ps @ tail" by (simp add: spaced_def p)
  have "finditer url_regex ?t (length pre) = finditer url_regex ?t (length pre + length w')"
    unfolding t1 using w' c by (intro finditer_ws_run) simp_all
  also have "\<dots> = (length pre + length w', length pre + length w' + 1 + length u)
                   # finditer url_regex ?t (max (length pre + length w' + 1 + length u)
                                                (length pre + length w' + 1))"
  proof (rule finditer_hit)
    from match_spaced_url [OF c u spaced_post [OF rest assms(2)], of "pre @ w'"]
    show "match_at url_regex ?t (length pre + length w')
            = Some (length pre + length w' + 1 + length u)"
      unfolding t2 by simp
    show "length pre + length w' \<le> length ?t" unfolding t1 by simp
  qed
  also have "max (length pre + length w' + 1 + length u) (length pre + length w' + 1)
               = length (pre @ w @ u)" by (simp add: wc)
  also have "finditer url_regex ?t (length (pre @ w @ u)) = layout (length (pre @ w @ u)) ps"
    unfolding t3 using rest by (rule Cons.IH)
  finally show ?case by (simp add: p wc add.assoc)
qed

lemma expected_spaced:
  assumes "\<forall>(w, u)\<in>set ps. w \<noteq> []"
  shows "map (\<lambda>(a, e). \<lparr>span_start = a + 1, span_end = e,
                          span_url = py (slice (pre @ spaced ps @ tail) (a + 1) e)\<rparr>)
             (layout (length pre) ps)
           = expected (length pre) ps"
  using assms
proof (induction ps arbitrary: pre)
  case Nil
  then show ?case by simp
next
  case (Cons p ps)
  obtain w u where p: "p = (w, u)" by (cases p)
  with Cons.prems have w: "0 < length w" and rest: "\<forall>(w, u)\<in>set ps. w \<noteq> []" by simp_all
  let ?t = "pre @ spaced (p # ps) @ tail"
  have t2: "?t = (pre @ w) @ u @ spaced ps @ tail" by (simp add: spaced_def p)
  have t3: "?t = (pre @ w @ u) @ spaced ps @ tail" by (simp add: spaced_def p)
  have "slice ?t (length (pre @ w)) (length (pre @ w) + length u) = u"
    unfolding t2 slice_def by simp
  then have s: "slice ?t (length pre + length w) (length pre + length w + length u) = u"
    by simp
  from Cons.IH [OF rest, of "pre @ w @ u"]
  have "map (\<lambda>(a, e). \<lparr>span_start = a + 1, span_end = e, span_url = py (slice ?t (a + 1) e)\<rparr>)
             (layout (length pre + length w + length u) ps)
           = expected (length pre + length w + length u) ps"
    unfolding t3 by (simp add: add.assoc)
  with w s show ?case by (simp add: p)
qed

lemma spaced_ascii:
  assumes "\<forall>(w, u)\<in>set ps. w \<noteq> [] \<and> (\<forall>c\<in>set w. ws c) \<and> url_ok u" and "\<forall>c\<in>set tail. ws c"
  shows "\<forall>c\<in>set (spaced ps @ tail). (of_char c :: nat) < 128"
proof -
  have "ascii c" if "url_ok u" "c \<in> set u" for u c
  proof -
    from that(2) obtain j where "j < length u" "c = u ! j" by (auto simp: in_set_conv_nth)
    with url_ok_path [OF that(1)] have "cls_path c" by simp
    then show ?thesis by (rule cls_path_ascii)
  qed
  with assms ws_ascii show ?thesis
    by (fastforce simp: spaced_def ascii_def)
qed

lemma spaced_urls_all_found:
  assumes "\<forall>(w, u)\<in>set ps. w \<noteq> [] \<and> (\<forall>c\<in>set w. ws c) \<and> url_ok u" and "\<forall>c\<in>set tail. ws c"
  shows "parse_urls (py (spaced ps @ tail)) = Inr (expected 0 ps)"
proof -
  from assms(1) have ne: "\<forall>(w, u)\<in>set ps. w \<noteq> []" by auto
  from finditer_spaced [OF assms, of "[]"]
  have f: "finditer url_regex (spaced ps @ tail) 0 = layout 0 ps" by simp
  from expected_spaced [OF ne, of "[]" tail]
  have e: "map (\<lambda>(a, e). \<lparr>span_start = a + 1, span_end = e,
                          span_url = py (slice (spaced ps @ tail) (a + 1) e)\<rparr>)
             (layout 0 ps) = expected 0 ps" by simp
  from parse_urls_ascii [OF spaced_ascii [OF assms]] f e show ?thesis by simp
qed

lemma length_expected: "length (expected pos ps) = length ps"
  by (induction pos ps rule: expected.induct) simp_all

lemma url_ok_example: "url_ok ''http://a.com'' \<and> url_ok ''https://www.b.org/x?y=1''"
  unfolding url_ok_def by code_simp

lemma spaced_urls_example:
  "parse_urls (py '' http://a.com  https://www.b.org/x?y=1 '')
     = Inr [\<lparr>span_start = 1, span_end = 13, span_url = py ''http://a.com''\<rparr>,
            \<lparr>span_start = 15, span_end = 38, span_url = py ''https://www.b.org/x?y=1''\<rparr>]"
proof -
  have "\<forall>(w, u)\<in>set [('' '', ''http://a.com''), (''  '', ''https://www.b.org/x?y=1'')].
          w \<noteq> [] \<and> (\<forall>c\<in>set w. ws c) \<and> url_ok u"
    using url_ok_example by (simp add: ws_def)
  moreover have "\<forall>c\<in>set '' ''. ws c" by (simp add: ws_def)
  ultimately have "parse_urls (py (spaced [('' '', ''http://a.com''),
                                           (''  '', ''https://www.b.org/x?y=1'')] @ '' ''))
                     = Inr (expected 0 [('' '', ''http://a.com''),
                                       (''  '', ''https://www.b.org/x?y=1'')])"
    by (rule spaced_urls_all_found)
  then show ?thesis by (simp add: spaced_def)
qed

section \<open>The composed post\<close>

text \<open>
  C3, as amended. For every paper the post is the content (title, newline, link, newline,
  abstract fragment) cut to at most 293 code points, followed in every case by the same
  suffix. The suffix has five code points, three full stops and two emoji, not three;
  when the content is longer than 293 code points exactly 293 of them stand before the
  suffix and the post has 298.
\<close>

theorem post_str_shape:
  "post_str v = take 293 (title v @ [0x0A] @ link v @ [0x0A] @ abstract_fragment v)
                @ [0x2E, 0x2E, 0x2E, 0x1F4C8, 0x1F916]
   \<and> length (post_str v) = min 293 (length (post_content v)) + 5
   \<and> (293 < length (post_content v) \<longrightarrow>
        take 293 (post_str v) = take 293 (post_content v)
        \<and> drop 293 (post_str v) = post_suffix
        \<and> length (post_str v) = 298)"
proof -
  have suffix: "post_suffix = [0x2E, 0x2E, 0x2E, 0x1F4C8, 0x1F916]"
    by (simp add: post_suffix_def py_def)
  have shape: "post_str v = take 293 (post_content v) @ post_suffix"
    by (simp add: post_str_def)
  have len: "length (post_str v) = min 293 (length (post_content v)) + 5"
    unfolding shape suffix by simp
  have long: "take 293 (post_str v) = take 293 (post_content v)
              \<and> drop 293 (post_str v) = post_suffix \<and> length (post_str v) = 298"
    if "293 < length (post_content v)"
    using that unfolding shape by (simp add: suffix)
  from shape suffix have "post_str v = take 293 (title v @ [0x0A] @ link v @ [0x0A] @ abstract_fragment v)
                @ [0x2E, 0x2E, 0x2E, 0x1F4C8, 0x1F916]"
    by (simp only: post_content_def)
  with len long show ?thesis by blast
qed



theorem post_str_shape_witness:
  "293 < length (post_content long_paper)
   \<and> take 293 (post_str long_paper) = replicate 293 0x61
   \<and> drop 293 (post_str long_paper) = py ''...'' @ [0x1F4C8, 0x1F916]
   \<and> length (post_str long_paper) = 298"
proof -
  have c: "post_content long_paper = replicate 300 0x61 @ [0x0A] @ py ''http://x'' @ [0x0A]"
    by (simp add: post_content_def long_paper_def abstract_fragment_def join_chars_def split_def strip_def)
  have l: "293 < length (post_content long_paper)"
    unfolding c by simp
  have t: "take 293 (post_content long_paper) = replicate 293 0x61"
    unfolding c by simp
  from post_str_shape [of long_paper] l
  have a: "take 293 (post_str long_paper) = take 293 (post_content long_paper)"
    and b: "drop 293 (post_str long_paper) = post_suffix"
    and d: "length (post_str long_paper) = 298"
    by blast+
  from a t have a': "take 293 (post_str long_paper) = replicate 293 0x61" by (simp only:)
  from b have b': "drop 293 (post_str long_paper) = py ''...'' @ [0x1F4C8, 0x1F916]"
    by (simp only: post_suffix_def)
  from l a' b' d show ?thesis by blast
qed

theorem post_str_suffix_counterexample:
  "post_str (paper_of e0) = py ''Foo bar'' @ [0x0A] @ py ''http://x'' @ [0x0A] @ py ''hello world''
                             @ [0x2E, 0x2E, 0x2E, 0x1F4C8, 0x1F916]
   \<and> take 293 (post_content (paper_of e0)) = py ''Foo bar'' @ [0x0A] @ py ''http://x'' @ [0x0A] @ py ''hello world''
   \<and> length (post_str (paper_of e0)) \<noteq> length (take 293 (post_content (paper_of e0))) + 3"
  by (simp add: paper_e0 post_str_def post_content_def abstract_fragment_def split_def strip_def isspace_def join_chars_def post_suffix_def py_def)


section \<open>The archive only grows\<close>

text \<open>
  C8. Whatever the outcome of a run, the archive it leaves on disk starts with the
  archive it found (an absent file counting as empty): no entry is removed or
  overwritten, every key keeps its value, keys stay unique, and the file is written,
  once, exactly when the new archive is longer than the old one; otherwise the file is
  left as it was.
\<close>

theorem archive_only_grows:
  assumes "load_archive (archive_file w) = Inr a"
  shows "\<exists>a'. load_archive (archive_file (snd (main net entries w))) = Inr a'
           \<and> take (length a) a' = a
           \<and> (\<forall>k v. map_of a k = Some v \<longrightarrow> map_of a' k = Some v)
           \<and> (distinct (map fst a) \<longrightarrow> distinct (map fst a'))
           \<and> writes (snd (main net entries w))
               = (if length a < length a' then writes w + 1 else writes w)
           \<and> (length a' \<le> length a \<longrightarrow> archive_file (snd (main net entries w)) = archive_file w)"
proof -
  let ?new = "filter (\<lambda>(k, v). \<not> dict_in k a) (get_arxiv_feed entries)"
  let ?w' = "snd (main net entries w)"
  from feed_step [OF assms, of entries] main_file [of net entries w]
  have fl: "archive_file ?w' = (if ?new = [] then archive_file w else Stored (a @ ?new))"
    and wr: "writes ?w' = (if ?new = [] then writes w else writes w + 1)"
    by simp_all
  from fl assms have ld: "load_archive (archive_file ?w') = Inr (a @ ?new)"
    by (simp add: load_archive_def)
  have keep: "map_of (a @ ?new) k = Some v" if "map_of a k = Some v" for k v
    using that by simp
  have dist: "distinct (map fst (a @ ?new))" if "distinct (map fst a)"
  proof -
    have "distinct (map fst ?new)"
      by (rule distinct_keys_filter) (rule distinct_feed)
    moreover have "set (map fst a) \<inter> set (map fst ?new) = {}"
      by (force simp: dict_in_def)
    ultimately show ?thesis using that by simp
  qed
  from fl have same: "archive_file ?w' = archive_file w" if "length (a @ ?new) \<le> length a"
    using that by simp
  from wr have wr': "writes ?w' = (if length a < length (a @ ?new) then writes w + 1 else writes w)"
    by simp
  from ld keep dist wr' same show ?thesis
    by (intro exI [of _ "a @ ?new"]) simp
qed

theorem archive_only_grows_witness:
  "load_archive (archive_file w_A) = Inr [(py ''http://a.org/1'', paper_of eA)]
   \<and> load_archive (archive_file (snd (main net_ok [eA, e0] w_A)))
       = Inr [(py ''http://a.org/1'', paper_of eA), (py ''http://x'', paper_of e0)]
   \<and> writes (snd (main net_ok [eA, e0] w_A)) = 1"
proof -
  have l: "load_archive (archive_file w_A) = Inr [(py ''http://a.org/1'', paper_of eA)]"
    by (simp add: w_A_def load_archive_def)
  from archive_only_grows [OF l, of net_ok "[eA, e0]"] obtain a' where
    a: "load_archive (archive_file (snd (main net_ok [eA, e0] w_A))) = Inr a'" and
    w: "writes (snd (main net_ok [eA, e0] w_A))
          = (if length [(py ''http://a.org/1'', paper_of eA)] < length a'
             then writes w_A + 1 else writes w_A)"
    by blast
  from a have a': "a' = [(py ''http://a.org/1'', paper_of eA), (py ''http://x'', paper_of e0)]"
    by (simp add: file_A_e0 load_archive_def)
  from w have "writes (snd (main net_ok [eA, e0] w_A)) = 1"
    unfolding a' by (simp add: w_A_def)
  with l a a' show ?thesis by simp
qed

section \<open>The placeholder post\<close>

text \<open>
  C4. With an empty feed and no archive file the run finds zero new entries and the
  archive holds zero entries, which is not more than two; the placeholder post is
  published all the same. The test of line 246 compares \<open>new_posts\<close> with
  \<open>0 & (len(archive) > 2)\<close>, which is 0 whatever the archive holds.
\<close>

theorem placeholder_with_empty_archive:
  "main net_ok [] w_empty
     = (Inr (), w_empty\<lparr>published := [\<lparr>post_text = no_new_papers, post_facets = None\<rparr>]\<rparr>)"
  by (simp add: main_def get_and_write_feed_json_def get_arxiv_feed_def load_archive_def
      no_new_test_def create_post_def facets_no_new net_ok_def w_empty_def)

section \<open>Reading the archive\<close>

text \<open>
  C5, as amended. When the archive file is absent the run goes on with an empty archive:
  every entry of the feed is new, is posted in feed order, and the file is created when
  the feed has an entry. When the file is there but holds no JSON, the decoding error is
  not caught (only \<open>FileNotFoundError\<close> is) and the run fails before anything is
  posted or written.
\<close>

theorem missing_archive_is_empty:
  "(archive_file w = Missing \<longrightarrow>
      get_and_write_feed_json entries w
        = (Inr (get_arxiv_feed entries, []),
           if get_arxiv_feed entries = [] then w
           else w\<lparr>archive_file := Stored (get_arxiv_feed entries), writes := writes w + 1\<rparr>)
      \<and> (\<forall>w1 archive' n w2.
            main_loop net (get_arxiv_feed entries) [] 0 w1 = (Inr (archive', n), w2) \<longrightarrow>
            n = int (length (get_arxiv_feed entries))
            \<and> map post_text (published w2)
                = map post_text (published w1)
                  @ map (\<lambda>(k, v). post_str v) (get_arxiv_feed entries)))
   \<and> (archive_file w = Unparseable \<longrightarrow>
        get_and_write_feed_json entries w = (Inl JSONDecodeError, w)
        \<and> main net entries w = (Inl JSONDecodeError, w))"
proof -
  have all_new: "filter (\<lambda>(k, v). \<not> dict_in k []) xs = xs" for xs :: "paper dict"
    by (induction xs) (auto simp: dict_in_def)
  have missing: "get_and_write_feed_json entries w
        = (Inr (get_arxiv_feed entries, []),
           if get_arxiv_feed entries = [] then w
           else w\<lparr>archive_file := Stored (get_arxiv_feed entries), writes := writes w + 1\<rparr>)"
    if "archive_file w = Missing"
    using feed_step [of w "[]" entries] that by (simp add: load_archive_def all_new)
  have loop: "n = int (length (get_arxiv_feed entries))
            \<and> map post_text (published w2)
                = map post_text (published w1)
                  @ map (\<lambda>(k, v). post_str v) (get_arxiv_feed entries)"
    if "main_loop net (get_arxiv_feed entries) [] 0 w1 = (Inr (archive', n), w2)"
    for w1 archive' n w2
    using main_loop_result [OF distinct_feed that] by (simp add: all_new)
  have corrupt: "get_and_write_feed_json entries w = (Inl JSONDecodeError, w)
        \<and> main net entries w = (Inl JSONDecodeError, w)"
    if "archive_file w = Unparseable"
    using that by (simp add: main_def get_and_write_feed_json_def load_archive_def)
  from missing loop corrupt show ?thesis by blast
qed

theorem missing_archive_is_empty_witness:
  "archive_file w_empty = Missing
   \<and> get_and_write_feed_json [eA, e0] w_empty
       = (Inr (get_arxiv_feed [eA, e0], []),
          \<lparr>archive_file = Stored [(py ''http://a.org/1'', paper_of eA), (py ''http://x'', paper_of e0)],
            writes = 1, published = []\<rparr>)
   \<and> archive_file (w_empty\<lparr>archive_file := Unparseable\<rparr>) = Unparseable
   \<and> main net_ok [eA, e0] (w_empty\<lparr>archive_file := Unparseable\<rparr>)
       = (Inl JSONDecodeError, w_empty\<lparr>archive_file := Unparseable\<rparr>)"
proof -
  have m: "archive_file w_empty = Missing" by (simp add: w_empty_def)
  have u: "archive_file (w_empty\<lparr>archive_file := Unparseable\<rparr>) = Unparseable" by simp
  from missing_archive_is_empty [of w_empty "[eA, e0]" net_ok] m
  have a: "get_and_write_feed_json [eA, e0] w_empty
        = (Inr (get_arxiv_feed [eA, e0], []),
           if get_arxiv_feed [eA, e0] = [] then w_empty
           else w_empty\<lparr>archive_file := Stored (get_arxiv_feed [eA, e0]), writes := writes w_empty + 1\<rparr>)"
    by blast
  from missing_archive_is_empty [of "w_empty\<lparr>archive_file := Unparseable\<rparr>" "[eA, e0]" net_ok] u
  have b: "main net_ok [eA, e0] (w_empty\<lparr>archive_file := Unparseable\<rparr>)
       = (Inl JSONDecodeError, w_empty\<lparr>archive_file := Unparseable\<rparr>)"
    by blast
  from a have a': "get_and_write_feed_json [eA, e0] w_empty
       = (Inr (get_arxiv_feed [eA, e0], []),
          \<lparr>archive_file = Stored [(py ''http://a.org/1'', paper_of eA), (py ''http://x'', paper_of e0)],
            writes = 1, published = []\<rparr>)"
    by (simp add: feed_A_e0 w_empty_def)
  from m a' u b show ?thesis by blast
qed

theorem corrupt_archive_counterexample:
  "fst (main net_ok [e0] w_corrupt) = Inl JSONDecodeError
   \<and> snd (main net_ok [e0] w_corrupt) = w_corrupt"
  by (simp add: main_def get_and_write_feed_json_def load_archive_def w_corrupt_def)

section \<open>New entries\<close>

text \<open>
  C6. For a feed and an archive that could be read, the entries the run treats as new
  are exactly the feed entries whose key is not in the archive, in feed order: these are
  the entries the loop posts and adds to its copy of the archive, and \<open>new_posts\<close>
  counts them. The archive file is rewritten (old entries first, then the new ones) if
  and only if there is at least one such entry.
\<close>

theorem differ_new_entries:
  assumes "load_archive (archive_file w) = Inr archive"
  shows "get_and_write_feed_json entries w
           = (Inr (get_arxiv_feed entries, archive),
              if filter (\<lambda>(k, v). \<not> dict_in k archive) (get_arxiv_feed entries) = [] then w
              else w\<lparr>archive_file :=
                        Stored (archive
                                @ filter (\<lambda>(k, v). \<not> dict_in k archive) (get_arxiv_feed entries)),
                      writes := writes w + 1\<rparr>)
         \<and> (\<forall>w1 archive' n w2.
               main_loop net (get_arxiv_feed entries) archive 0 w1 = (Inr (archive', n), w2) \<longrightarrow>
               n = int (length (filter (\<lambda>(k, v). \<not> dict_in k archive) (get_arxiv_feed entries)))
               \<and> archive'
                   = archive @ filter (\<lambda>(k, v). \<not> dict_in k archive) (get_arxiv_feed entries)
               \<and> map post_text (published w2)
                   = map post_text (published w1)
                     @ map (\<lambda>(k, v). post_str v)
                         (filter (\<lambda>(k, v). \<not> dict_in k archive) (get_arxiv_feed entries)))"
proof -
  have loop: "n = int (length (filter (\<lambda>(k, v). \<not> dict_in k archive) (get_arxiv_feed entries)))
               \<and> archive'
                   = archive @ filter (\<lambda>(k, v). \<not> dict_in k archive) (get_arxiv_feed entries)
               \<and> map post_text (published w2)
                   = map post_text (published w1)
                     @ map (\<lambda>(k, v). post_str v)
                         (filter (\<lambda>(k, v). \<not> dict_in k archive) (get_arxiv_feed entries))"
    if "main_loop net (get_arxiv_feed entries) archive 0 w1 = (Inr (archive', n), w2)"
    for w1 archive' n w2
    using main_loop_result [OF distinct_feed that] by simp
  from feed_step [OF assms, of entries] loop show ?thesis by blast
qed

theorem differ_new_entries_witness:
  "load_archive (archive_file w_A) = Inr [(py ''http://a.org/1'', paper_of eA)]
   \<and> get_and_write_feed_json [eA, e0] w_A
       = (Inr ([(py ''http://a.org/1'', paper_of eA), (py ''http://x'', paper_of e0)],
               [(py ''http://a.org/1'', paper_of eA)]),
          w_A\<lparr>archive_file :=
                 Stored [(py ''http://a.org/1'', paper_of eA), (py ''http://x'', paper_of e0)],
               writes := 1\<rparr>)
   \<and> map post_text (published (snd (main_loop net_ok (get_arxiv_feed [eA, e0])
                                       [(py ''http://a.org/1'', paper_of eA)] 0 w_A)))
       = [post_str (paper_of e0)]
   \<and> load_archive (archive_file w_empty) = Inr []
   \<and> get_and_write_feed_json [] w_empty = (Inr ([], []), w_empty)"
proof -
  let ?A = "(py ''http://a.org/1'', paper_of eA)"
  have l: "load_archive (archive_file w_A) = Inr [?A]"
    by (simp add: w_A_def load_archive_def)
  have l0: "load_archive (archive_file w_empty) = Inr []"
    by (simp add: w_empty_def load_archive_def)
  note t = differ_new_entries [OF l, of "[eA, e0]" net_ok]
  from t have a: "get_and_write_feed_json [eA, e0] w_A
       = (Inr ([?A, (py ''http://x'', paper_of e0)], [?A]),
          w_A\<lparr>archive_file := Stored [?A, (py ''http://x'', paper_of e0)], writes := 1\<rparr>)"
    unfolding new_A_e0 by (simp add: feed_A_e0 w_A_def)
  obtain a' n w2 where ml: "main_loop net_ok (get_arxiv_feed [eA, e0]) [?A] 0 w_A = (Inr (a', n), w2)"
    using main_loop_A_e0 [of w_A] by blast
  with t have "map post_text (published w2)
       = map post_text (published w_A)
         @ map (\<lambda>(k, v). post_str v)
             (filter (\<lambda>(k, v). \<not> dict_in k [?A]) (get_arxiv_feed [eA, e0]))"
    by blast
  with ml have b: "map post_text (published (snd (main_loop net_ok (get_arxiv_feed [eA, e0]) [?A] 0 w_A)))
       = [post_str (paper_of e0)]"
    unfolding new_A_e0 by (simp add: w_A_def)
  from differ_new_entries [OF l0, of "[]" net_ok]
  have c: "get_and_write_feed_json [] w_empty = (Inr ([], []), w_empty)"
    by (simp add: get_arxiv_feed_def)
  from l a b l0 c show ?thesis by blast
qed

section \<open>The abstract fragment\<close>

text \<open>
  C10. When the description of a paper does not contain \<open>Abstract:\<close>, the abstract
  fragment is the whole description, stripped; when it does, the fragment is what
  follows the last occurrence, stripped. The description of a paper built from a feed
  entry is already stripped, so in the first case the fragment is the description
  itself.
\<close>

theorem abstract_fragment_marker:
  "(\<not> occurs (py ''Abstract:'') (description v) \<longrightarrow> abstract_fragment v = strip (description v))
   \<and> (\<forall>a b. description v = a @ py ''Abstract:'' @ b \<and> \<not> occurs (py ''Abstract:'') b \<longrightarrow>
          abstract_fragment v = strip b)
   \<and> strip (description (paper_of e)) = description (paper_of e)"
proof -
  have m: "py ''Abstract:'' \<noteq> []" "hd (py ''Abstract:'') \<notin> set (tl (py ''Abstract:''))"
    by (simp_all add: py_def)
  have none: "abstract_fragment v = strip (description v)"
    if "\<not> occurs (py ''Abstract:'') (description v)"
    using that by (simp add: abstract_fragment_def join_chars_id split_def split_from_none)
  have some: "abstract_fragment v = strip b"
    if "description v = a @ py ''Abstract:'' @ b" "\<not> occurs (py ''Abstract:'') b" for a b
    using that split_from_last [OF m, of "[]" a b]
    by (simp add: abstract_fragment_def join_chars_id split_def split_from_none)
  have idem: "strip (description (paper_of e)) = description (paper_of e)"
    by (simp add: paper_of_def strip_strip)
  from none some idem show ?thesis by blast
qed

theorem abstract_fragment_marker_witness:
  "\<not> occurs (py ''Abstract:'') (description (paper_of eA))
   \<and> abstract_fragment (paper_of eA) = py ''No marker here''
   \<and> description two_markers = py ''Abstract: one '' @ py ''Abstract:'' @ py '' two''
   \<and> \<not> occurs (py ''Abstract:'') (py '' two'')
   \<and> abstract_fragment two_markers = py ''two''
   \<and> strip (description (paper_of eA)) = py ''No marker here''"
proof -
  note t = abstract_fragment_marker [of "paper_of eA" eA]
  note u = abstract_fragment_marker [of two_markers eA]
  have d: "description (paper_of eA) = py ''No marker here''"
    by (simp add: paper_eA)
  have n: "\<not> occurs (py ''Abstract:'') (description (paper_of eA))"
    unfolding d by (simp add: py_def)
  from t n have "abstract_fragment (paper_of eA) = strip (description (paper_of eA))"
    and s: "strip (description (paper_of eA)) = description (paper_of eA)"
    by blast+
  then have a: "abstract_fragment (paper_of eA) = py ''No marker here''"
    and s': "strip (description (paper_of eA)) = py ''No marker here''"
    using d by simp_all
  have d2: "description two_markers = py ''Abstract: one '' @ py ''Abstract:'' @ py '' two''"
    by (simp add: two_markers_def py_def)
  have n2: "\<not> occurs (py ''Abstract:'') (py '' two'')"
    by (simp add: py_def)
  from u d2 n2 have "abstract_fragment two_markers = strip (py '' two'')"
    by blast
  then have b: "abstract_fragment two_markers = py ''two''"
    by (simp add: strip_def isspace_def py_def)
  from n a d2 n2 b s' show ?thesis by blast
qed

section \<open>Facets\<close>

text \<open>
  C7. For every text, \<open>parse_facets\<close> fails exactly when \<open>parse_urls\<close> does, and
  otherwise returns one record per span, in the same order: the record's \<open>index\<close>
  holds the span's start and end as \<open>byteStart\<close> and \<open>byteEnd\<close>, and its
  \<open>features\<close> hold one link feature whose field \<open>uri\<close> carries the span's URL;
  the feature has no field \<open>url\<close>.
\<close>

theorem parse_facets_spans:
  "(\<forall>e. parse_urls text = Inl e \<longrightarrow> parse_facets text = Inl e)
   \<and> (\<forall>spans. parse_urls text = Inr spans \<longrightarrow>
        (\<exists>facets. parse_facets text = Inr facets \<and> length facets = length spans
           \<and> (\<forall>i<length spans.
                 jget ''index'' (facets ! i)
                   = Some (JObj [(''byteStart'', JNum (span_start (spans ! i))),
                                 (''byteEnd'', JNum (span_end (spans ! i)))])
                 \<and> (\<exists>f. jget ''features'' (facets ! i) = Some (JArr [f])
                        \<and> jget ''$type'' f = Some (JStr (py ''app.bsky.richtext.facet#link''))
                        \<and> jget ''uri'' f = Some (JStr (span_url (spans ! i)))
                        \<and> jget ''url'' f = None))))"
proof -
  have err: "parse_facets text = Inl e" if "parse_urls text = Inl e" for e
    using that by (simp add: parse_facets_def)
  have ok: "\<exists>facets. parse_facets text = Inr facets \<and> length facets = length spans
           \<and> (\<forall>i<length spans.
                 jget ''index'' (facets ! i)
                   = Some (JObj [(''byteStart'', JNum (span_start (spans ! i))),
                                 (''byteEnd'', JNum (span_end (spans ! i)))])
                 \<and> (\<exists>f. jget ''features'' (facets ! i) = Some (JArr [f])
                        \<and> jget ''$type'' f = Some (JStr (py ''app.bsky.richtext.facet#link''))
                        \<and> jget ''uri'' f = Some (JStr (span_url (spans ! i)))
                        \<and> jget ''url'' f = None))"
    if "parse_urls text = Inr spans" for spans
  proof (intro exI [of _ "map facet_of spans"] conjI allI impI)
    show "parse_facets text = Inr (map facet_of spans)"
      using that by (simp add: parse_facets_def append_facets_eq)
    show "length (map facet_of spans) = length spans" by simp
  next
    fix i assume "i < length spans"
    then show "jget ''index'' (map facet_of spans ! i)
                 = Some (JObj [(''byteStart'', JNum (span_start (spans ! i))),
                               (''byteEnd'', JNum (span_end (spans ! i)))])"
      by (simp add: facet_of_def jget_def)
  next
    fix i assume "i < length spans"
    then show "\<exists>f. jget ''features'' (map facet_of spans ! i) = Some (JArr [f])
                        \<and> jget ''$type'' f = Some (JStr (py ''app.bsky.richtext.facet#link''))
                        \<and> jget ''uri'' f = Some (JStr (span_url (spans ! i)))
                        \<and> jget ''url'' f = None"
      by (simp add: facet_of_def jget_def)
  qed
  from err ok show ?thesis by blast
qed

theorem parse_facets_spans_witness:
  "parse_urls (py ''a http://a.com b'')
     = Inr [\<lparr>span_start = 2, span_end = 14, span_url = py ''http://a.com''\<rparr>]
   \<and> (\<exists>facets. parse_facets (py ''a http://a.com b'') = Inr facets \<and> length facets = 1
         \<and> jget ''index'' (facets ! 0)
             = Some (JObj [(''byteStart'', JNum 2), (''byteEnd'', JNum 14)])
         \<and> (\<exists>f. jget ''features'' (facets ! 0) = Some (JArr [f])
                \<and> jget ''uri'' f = Some (JStr (py ''http://a.com''))
                \<and> jget ''url'' f = None))"
proof -
  let ?u = "\<lparr>span_start = 2, span_end = 14, span_url = py ''http://a.com''\<rparr>"
  have p: "parse_urls (py ''a http://a.com b'') = Inr [?u]"
    by (simp add: parse_urls_ascii finditer_one slice_def)
  from parse_facets_spans [of "py ''a http://a.com b''"] p obtain facets where
    f: "parse_facets (py ''a http://a.com b'') = Inr facets" "length facets = length [?u]"
    and a: "\<forall>i<length [?u].
                 jget ''index'' (facets ! i)
                   = Some (JObj [(''byteStart'', JNum (span_start ([?u] ! i))),
                                 (''byteEnd'', JNum (span_end ([?u] ! i)))])
                 \<and> (\<exists>f. jget ''features'' (facets ! i) = Some (JArr [f])
                        \<and> jget ''$type'' f = Some (JStr (py ''app.bsky.richtext.facet#link''))
                        \<and> jget ''uri'' f = Some (JStr (span_url ([?u] ! i)))
                        \<and> jget ''url'' f = None)"
    by blast
  from a have "jget ''index'' (facets ! 0)
                   = Some (JObj [(''byteStart'', JNum 2), (''byteEnd'', JNum 14)])
                 \<and> (\<exists>f. jget ''features'' (facets ! 0) = Some (JArr [f])
                        \<and> jget ''uri'' f = Some (JStr (py ''http://a.com''))
                        \<and> jget ''url'' f = None)"
    by auto
  with p f show ?thesis by auto
qed

section \<open>Trailing punctuation\<close>

text \<open>
  C9. The last octet of every URL the scanner returns is matched by the last bracket
  expression of the pattern, which leaves out the full stop, the colon, the question
  mark, the ampersand and the parentheses that the path may contain; so no returned URL
  ends in one of \<open>. , ; : ! ? ( ) &\<close>. On
  \<open>see http://a.com/x. also http://b.org\<close> the first span is octets 4 to 18,
  \<open>http://a.com/x\<close>, without the full stop.
\<close>

theorem trailing_punctuation_excluded:
  "(\<forall>text spans u. parse_urls text = Inr spans \<and> u \<in> set spans \<longrightarrow>
       span_url u \<noteq> []
       \<and> (\<exists>c. cls_path_end c \<and> last (span_url u) = of_char c)
       \<and> last (span_url u) \<notin> set (py ''.,;:!?()&''))
   \<and> parse_urls (py ''see http://a.com/x. also http://b.org'')
       = Inr [\<lparr>span_start = 4, span_end = 18, span_url = py ''http://a.com/x''\<rparr>,
              \<lparr>span_start = 25, span_end = 37, span_url = py ''http://b.org''\<rparr>]"
proof -
  have "span_url u \<noteq> []
       \<and> (\<exists>c. cls_path_end c \<and> last (span_url u) = of_char c)
       \<and> last (span_url u) \<notin> set (py ''.,;:!?()&'')"
    if "parse_urls tx = Inr spans" "u \<in> set spans" for tx spans u
  proof -
    from span_last [OF that] obtain c where n: "span_url u \<noteq> []"
      and c: "cls_path_end c" "last (span_url u) = of_char c" by blast
    from path_end_not_punct [OF c(1)] c(2) have "last (span_url u) \<notin> set (py ''.,;:!?()&'')"
      by simp
    with n c show ?thesis by blast
  qed
  with parse_urls_see show ?thesis by blast
qed

theorem trailing_punctuation_excluded_witness:
  "parse_urls (py ''see http://a.com/x. also http://b.org'')
     = Inr [\<lparr>span_start = 4, span_end = 18, span_url = py ''http://a.com/x''\<rparr>,
            \<lparr>span_start = 25, span_end = 37, span_url = py ''http://b.org''\<rparr>]
   \<and> last (py ''http://a.com/x'') \<notin> set (py ''.,;:!?()&'')
   \<and> last (py ''http://b.org'') \<notin> set (py ''.,;:!?()&'')"
proof -
  let ?u1 = "\<lparr>span_start = 4, span_end = 18, span_url = py ''http://a.com/x''\<rparr>"
  let ?u2 = "\<lparr>span_start = 25, span_end = 37, span_url = py ''http://b.org''\<rparr>"
  note t = trailing_punctuation_excluded
  from t have p: "parse_urls (py ''see http://a.com/x. also http://b.org'') = Inr [?u1, ?u2]"
    by blast
  have "?u1 \<in> set [?u1, ?u2]" "?u2 \<in> set [?u1, ?u2]" by simp_all
  with t p have "last (span_url ?u1) \<notin> set (py ''.,;:!?()&'')"
    and "last (span_url ?u2) \<notin> set (py ''.,;:!?()&'')" by blast+
  with p show ?thesis by simp
qed

section \<open>A URL at the start of the text\<close>

text \<open>
  C2. The pattern starts with the bracket expression \<open>[$|\W]\<close>, which consumes one
  octet; inside the brackets \<open>$\<close> and \<open>|\<close> are two more non-word characters, not an
  anchor and an alternative, so nothing stands for the start of the text. A text that
  begins with a URL gives no span, while the same URL after a space is found, with the
  span starting at the scheme. (That every span starts after an octet of the bracket
  expression, which is not part of it, is \<open>span_is_slice\<close>.)
\<close>

theorem url_at_offset_zero_missed:
  "parse_urls (py ''http://a.com'') = Inr []
   \<and> parse_urls (py '' http://a.com'')
       = Inr [\<lparr>span_start = 1, span_end = 13, span_url = py ''http://a.com''\<rparr>]"
  by (simp add: parse_urls_ascii finditer_start finditer_space slice_def)

text \<open>
  C1. A text of two URLs separated by a space, the first at offset 0, gives one span,
  not two: the first URL has no octet before it for \<open>[$|\W]\<close> to consume. When
  every URL has whitespace before it, all of them are found
  (\<open>spaced_urls_all_found\<close>), and for every text the spans are ordered and each URL
  is the decoded slice (\<open>spans_ordered\<close>, \<open>span_is_slice\<close>).
\<close>

theorem first_of_two_urls_missed:
  "parse_urls (py ''http://a.com http://b.org'')
     = Inr [\<lparr>span_start = 13, span_end = 25, span_url = py ''http://b.org''\<rparr>]"
  by (simp add: parse_urls_ascii finditer_two slice_def)

end
